theory Spec2Isabelle
  imports Main "HOL-Library.Word"
begin

section \<open>Search paths of Make-plus: a shallow embedding of vpath.c and w32/pathstuff.c\<close>

text \<open>
  The C code is embedded function by function.  C strings are \<^typ>\<open>string\<close> (the bytes
  before the terminating NUL), a nullable \<open>char *\<close> is a \<^typ>\<open>string option\<close>, the
  singly linked chain of \<open>struct vpath\<close> is a list in chain order, and the three file-level
  pointers \<open>vpaths\<close>, \<open>general_vpath\<close> and \<open>gpaths\<close> are the record \<open>globals\<close>.
  A failed \<open>assert\<close>, a read through a null or dangling pointer and a \<open>free\<close> of a
  pointer that is not the start of an allocated block end the run: they are the \<open>Inl\<close>
  results of the functions that can reach them.
\<close>

subsection \<open>Errors, platforms, C string primitives\<close>

datatype error = AssertionFailure | NullDereference | OutOfBounds | InvalidFree

text \<open>
  The conditional compilation of the source is a parameter: \<open>have_dos_paths\<close> stands for
  \<open>HAVE_DOS_PATHS\<close> (with \<open>__MSDOS__\<close> and \<open>__EMX__\<close>), \<open>windows32\<close> for \<open>WINDOWS32\<close>, and
  \<open>path_separator_char\<close> is the macro \<open>PATH_SEPARATOR_CHAR\<close> of makeint.h.  The VMS
  branches are not modelled.
\<close>

record platform =
  have_dos_paths :: bool
  windows32 :: bool
  path_separator_char :: char

text \<open>
  Modelled from the spec: the macro \<open>ISBLANK\<close> of makeint.h (\<open>MAP_BLANK\<close>), which is
  not under src/; the blanks of a directory string are the space and the tab.
\<close>

definition ISBLANK :: "char \<Rightarrow> bool" where
  "ISBLANK c = (c = CHR '' '' \<or> c = CHR 0x09)"

text \<open>\<open>STOP_SET (c, MAP_BLANK|MAP_PATHSEP)\<close>: a blank or the path separator.\<close>

definition blank_or_pathsep :: "platform \<Rightarrow> char \<Rightarrow> bool" where
  "blank_or_pathsep pf c = (ISBLANK c \<or> c = path_separator_char pf)"

text \<open>
  \<open>s[i]\<close> for a C string: the byte at \<open>i\<close>, the terminating NUL at \<open>i = strlen s\<close>.
  (Beyond the terminator C leaves the read undefined; the functions below that can read
  there say what they do.)
\<close>

definition cchar :: "string \<Rightarrow> nat \<Rightarrow> char" where
  "cchar s i = (if i < length s then s ! i else CHR 0x00)"

text \<open>
  \<open>strneq (a, b, n)\<close>, that is \<open>strncmp (a, b, n) == 0\<close>: the strings agree on their first
  \<open>n\<close> bytes, where the comparison stops after a terminating NUL.
\<close>

fun strneq :: "string \<Rightarrow> string \<Rightarrow> nat \<Rightarrow> bool" where
  "strneq a b 0 = True"
| "strneq [] [] (Suc n) = True"
| "strneq [] (y # ys) (Suc n) = False"
| "strneq (x # xs) [] (Suc n) = False"
| "strneq (x # xs) (y # ys) (Suc n) = (x = y \<and> strneq xs ys n)"

subsection \<open>The data of vpath.c\<close>

text \<open>
  \<open>struct vpath\<close> without its \<open>next\<close> pointer.  \<open>percent\<close> is the offset of the \<open>%\<close> in
  \<open>pattern\<close> (\<open>None\<close> for a null pointer), \<open>searchpath\<close> the directories before the null
  terminator of the array, \<open>target_goal\<close> the C \<open>int\<close> flag.
\<close>

record vpath =
  pattern :: string
  percent :: "nat option"
  patlen :: nat
  searchpath :: "string list"
  maxlen :: nat
  target_goal :: int

record globals =
  vpaths :: "vpath list"
  general_vpath :: "vpath option"
  gpaths :: "vpath option"

subsection \<open>The collaborators of the search\<close>

text \<open>
  Modelled from the spec: \<open>find_percent\<close> (read.c, not under src/), the wildcard-offset
  finder \<open>find_wildcard_offset (pattern) -> Option<usize>\<close>: the byte offset of the
  \<open>%\<close> of the pattern, or none.
\<close>

definition find_percent :: "string \<Rightarrow> nat option" where
  "find_percent pat =
     (if CHR ''%'' \<in> set pat then Some (length (takeWhile (\<lambda>c. c \<noteq> CHR ''%'') pat))
      else None)"

text \<open>
  Modelled from the spec: \<open>pattern_matches\<close> (function.c, not under src/), the
  single-\<open>%\<close>-wildcard match \<open>wildcard_match (pattern, wildcard_offset, name) -> bool\<close>.
  Without a wildcard the name is the pattern; with one, the name starts with the text
  before the \<open>%\<close>, ends with the text after it, and is long enough for both.  A null
  offset makes the matcher look for the \<open>%\<close> itself.
\<close>

definition pattern_matches :: "string \<Rightarrow> nat option \<Rightarrow> string \<Rightarrow> bool" where
  "pattern_matches pat pct str =
     (case (case pct of None \<Rightarrow> find_percent pat | Some k \<Rightarrow> Some k) of
        None \<Rightarrow> pat = str
      | Some k \<Rightarrow>
          (let sfx = drop (Suc k) pat
           in k + length sfx \<le> length str \<and> take k pat = take k str \<and>
              sfx = drop (length str - length sfx) str))"

text \<open>
  \<open>FILE_TIMESTAMP\<close> is an unsigned 64-bit integer.  The fields of \<open>struct file\<close> that the
  search reads are \<open>is_target\<close> and \<open>last_mtime\<close>.
\<close>

type_synonym FILE_TIMESTAMP = "64 word"

record file_entry =
  is_target :: bool
  last_mtime :: FILE_TIMESTAMP

text \<open>
  What the search asks of the rest of the program: \<open>lookup_file\<close> (file.c, the database
  of files mentioned in makefiles), \<open>dir_file_exists_p\<close> (dir.c, the directory cache), and
  \<open>stat\<close> with \<open>FILE_TIMESTAMP_STAT_MODTIME\<close> (\<open>None\<close> when \<open>stat\<close> fails).  The three
  timestamp sentinels are macros of filedef.h, which is not under src/; they are taken as
  given.
\<close>

record env =
  lookup_file :: "string \<Rightarrow> file_entry option"
  dir_file_exists_p :: "string \<Rightarrow> string \<Rightarrow> bool"
  stat_modtime :: "string \<Rightarrow> FILE_TIMESTAMP option"
  OLD_MTIME :: FILE_TIMESTAMP
  NEW_MTIME :: FILE_TIMESTAMP
  UNKNOWN_MTIME :: FILE_TIMESTAMP

text \<open>
  The out-parameters of \<open>vpath_search\<close>: \<open>out_ptrs\<close> says which pointers are non-null,
  \<open>out_cells\<close> holds what they point to.  The indices are \<open>unsigned int\<close>; they count
  lists and directories and are natural numbers here.
\<close>

record out_ptrs =
  mtime_ptr :: bool
  target_path :: bool
  vpath_index :: bool
  path_index :: bool

record out_cells =
  mtime_cell :: FILE_TIMESTAMP
  target_path_cell :: int
  vpath_index_cell :: nat
  path_index_cell :: nat

subsection \<open>vpath_match\<close>

definition vpath_match :: "vpath \<Rightarrow> string \<Rightarrow> error + bool" where
  "vpath_match v filename =
     (if pattern_matches (pattern v) (percent v) filename then Inr True
      else if \<not> 0 < length (pattern v) then Inl AssertionFailure
      else if last (pattern v) = CHR ''.'' \<and> CHR ''.'' \<notin> set filename then
        (let p = butlast (pattern v)
         in if pattern_matches p (find_percent p) filename then Inr True else Inr False)
      else Inr False)"

subsection \<open>selective_vpath_search\<close>

text \<open>\<open>strrchr\<close>: the offset of the last occurrence of a byte, if there is one.\<close>

definition strrchr :: "string \<Rightarrow> char \<Rightarrow> nat option" where
  "strrchr s ch =
     (if ch \<in> set s then Some (length s - Suc (length (takeWhile (\<lambda>c. c \<noteq> ch) (rev s))))
      else None)"

text \<open>
  The pointer \<open>n\<close>: the rightmost slash, or with DOS paths the rightmost slash or
  backslash.
\<close>

definition last_separator :: "platform \<Rightarrow> string \<Rightarrow> nat option" where
  "last_separator pf file =
     (let n = strrchr file CHR ''/''
      in if have_dos_paths pf then
           (let bslash = strrchr file CHR 0x5C
            in case n of
                 None \<Rightarrow> bslash
               | Some a \<Rightarrow>
                   (case bslash of None \<Rightarrow> n | Some b \<Rightarrow> if a < b then bslash else n))
         else n)"

definition name_dplen :: "platform \<Rightarrow> string \<Rightarrow> nat" where
  "name_dplen pf file = (case last_separator pf file of Some n \<Rightarrow> n | None \<Rightarrow> 0)"

text \<open>\<open>filename\<close>, the name within the directory; \<open>flen\<close> is its length.\<close>

definition filename_of :: "platform \<Rightarrow> string \<Rightarrow> string" where
  "filename_of pf file =
     (if 0 < name_dplen pf file then drop (Suc (name_dplen pf file)) file else file)"

text \<open>
  The variables of the scan that live across iterations of its loop: \<open>exists\<close>, the local
  copy of \<open>mtime_ptr\<close> (true while it is non-null), \<open>tgt_name\<close> and \<open>tgt_len\<close>.
\<close>

record locals =
  l_exists :: bool
  l_mtime_ptr :: bool
  tgt_name :: "string option"
  tgt_len :: nat

datatype step = Found string out_cells | Next locals out_cells | Abort error

text \<open>
  The tail of the loop body after a file was found: the unknown timestamp when none was
  stored, the directory index, and the interned name \<open>strcache_add_len (name, len)\<close>.
\<close>

definition found_file ::
  "env \<Rightarrow> bool \<Rightarrow> nat \<Rightarrow> string \<Rightarrow> nat \<Rightarrow> bool \<Rightarrow> out_cells \<Rightarrow> step" where
  "found_file en pidx i name len mp c =
     (let c1 = (if mp then c\<lparr>mtime_cell := UNKNOWN_MTIME en\<rparr> else c);
          c2 = (if pidx then c1\<lparr>path_index_cell := i\<rparr> else c1)
      in Found (take len name) c2)"

text \<open>
  The buffer \<open>name\<close> in one iteration of \<open>for (i = 0; vpath[i] != 0; ++i)\<close>, for the
  directory \<open>d = vpath[i]\<close>.  \<open>candidate_dir\<close> is the buffer up to \<open>p\<close>: the
  directory, then a slash and the directory prefix of the file when there is one (with
  DOS paths a backslash before \<open>p\<close> is turned into a slash).  A slash is written at
  \<open>p\<close> before the file name only when that text is non-empty and does not end in a
  slash (\<open>slash_added\<close>); \<open>candidate_name\<close> is the buffer that \<open>lookup_file\<close> sees.
  The directory asked of the cache is the buffer cut at \<open>p\<close>, that is \<open>candidate_dir\<close>.
  Then \<open>*p = '/'\<close> is executed in every case, which gives \<open>restored_name\<close>: when no
  slash had been written at \<open>p\<close> it overwrites the first byte of the file name.  (When
  in that case the file name is empty, the slash overwrites the terminator and C reads on;
  here the string ends after the slash.)  \<open>restored_name\<close> is what \<open>stat\<close> sees, what is
  copied to \<open>tgt_name\<close>, and what is interned, with the length \<open>(p + 1 - name) + flen\<close>.
\<close>

definition candidate_dir :: "platform \<Rightarrow> string \<Rightarrow> string \<Rightarrow> string" where
  "candidate_dir pf d file =
     (let dplen = name_dplen pf file;
          pre0 = d @ (if 0 < dplen then CHR ''/'' # take dplen file else [])
      in if have_dos_paths pf \<and> pre0 \<noteq> [] \<and> last pre0 = CHR 0x5C
         then butlast pre0 @ [CHR ''/''] else pre0)"

definition slash_added :: "platform \<Rightarrow> string \<Rightarrow> string \<Rightarrow> bool" where
  "slash_added pf d file =
     (candidate_dir pf d file \<noteq> [] \<and> last (candidate_dir pf d file) \<noteq> CHR ''/'')"

definition candidate_name :: "platform \<Rightarrow> string \<Rightarrow> string \<Rightarrow> string" where
  "candidate_name pf d file =
     (if slash_added pf d file then candidate_dir pf d file @ CHR ''/'' # filename_of pf file
      else candidate_dir pf d file @ filename_of pf file)"

definition restored_name :: "platform \<Rightarrow> string \<Rightarrow> string \<Rightarrow> string" where
  "restored_name pf d file =
     candidate_dir pf d file @
       CHR ''/'' # (if slash_added pf d file then filename_of pf file
                    else tl (filename_of pf file))"

text \<open>The body of the loop for the directory \<open>d\<close> at index \<open>i\<close>.\<close>

definition try_entry ::
  "platform \<Rightarrow> env \<Rightarrow> bool \<Rightarrow> int \<Rightarrow> string \<Rightarrow> bool \<Rightarrow> nat \<Rightarrow> string \<Rightarrow>
   locals \<Rightarrow> out_cells \<Rightarrow> step" where
  "try_entry pf en is_tgt is_target_path file pidx i d l c =
     (let filename = filename_of pf file;
          flen = length filename;
          f = lookup_file en (candidate_name pf d file);
          ex1 = (case f of None \<Rightarrow> l_exists l | Some e \<Rightarrow> \<not> is_tgt \<or> is_target e);
          special = (case f of
                       None \<Rightarrow> False
                     | Some e \<Rightarrow> ex1 \<and> l_mtime_ptr l \<and>
                         (last_mtime e = OLD_MTIME en \<or> last_mtime e = NEW_MTIME en));
          c1 = (case f of
                  None \<Rightarrow> c
                | Some e \<Rightarrow> if special then c\<lparr>mtime_cell := last_mtime e\<rparr> else c);
          mp1 = (if special then False else l_mtime_ptr l);
          exists_in_cache =
            (if ex1 then False else dir_file_exists_p en (candidate_dir pf d file) filename);
          ex2 = (if ex1 then ex1 else exists_in_cache);
          name1 = restored_name pf d file;
          len1 = length (candidate_dir pf d file) + 1 + flen
      in if ex2 then
           (if exists_in_cache then
              (case stat_modtime en name1 of
                 None \<Rightarrow>
                   if is_target_path = 0 \<and> \<not> is_tgt
                   then Next (l\<lparr>l_exists := False, l_mtime_ptr := mp1\<rparr>) c1
                   else found_file en pidx i name1 len1 mp1 c1
               | Some t \<Rightarrow>
                   if mp1 then found_file en pidx i name1 len1 False (c1\<lparr>mtime_cell := t\<rparr>)
                   else found_file en pidx i name1 len1 mp1 c1)
            else found_file en pidx i name1 len1 mp1 c1)
         else if is_target_path \<noteq> 0 \<and> tgt_name l = None then
           (if i \<noteq> 0 then Abort AssertionFailure
            else if len1 \<noteq> length name1 then Abort AssertionFailure
            else Next (l\<lparr>l_exists := ex2, l_mtime_ptr := mp1,
                         tgt_name := Some name1, tgt_len := len1\<rparr>) c1)
         else Next (l\<lparr>l_exists := ex2, l_mtime_ptr := mp1\<rparr>) c1)"

fun entries_loop ::
  "platform \<Rightarrow> env \<Rightarrow> bool \<Rightarrow> int \<Rightarrow> string \<Rightarrow> bool \<Rightarrow> nat \<Rightarrow> string list \<Rightarrow>
   locals \<Rightarrow> out_cells \<Rightarrow> error + (string option \<times> locals \<times> out_cells)" where
  "entries_loop pf en is_tgt is_target_path file pidx i [] l c = Inr (None, l, c)"
| "entries_loop pf en is_tgt is_target_path file pidx i (d # ds) l c =
     (case try_entry pf en is_tgt is_target_path file pidx i d l c of
        Abort e \<Rightarrow> Inl e
      | Found n c' \<Rightarrow> Inr (Some n, l, c')
      | Next l' c' \<Rightarrow> entries_loop pf en is_tgt is_target_path file pidx (Suc i) ds l' c')"

text \<open>
  The whole scan of one list.  \<open>mp\<close> and \<open>pidx\<close> say whether \<open>mtime_ptr\<close> and
  \<open>path_index\<close> are non-null.  (The buffer \<open>name\<close> is sized from \<open>maxlen\<close>; its size
  is not part of the embedding.)  The result is the returned name (\<open>None\<close> for the null
  pointer) and the cells after the call.
\<close>

definition selective_vpath_search ::
  "platform \<Rightarrow> env \<Rightarrow> vpath \<Rightarrow> string \<Rightarrow> bool \<Rightarrow> bool \<Rightarrow> out_cells \<Rightarrow>
   error + (string option \<times> out_cells)" where
  "selective_vpath_search pf en path file mp pidx c =
     (let is_tgt = (case lookup_file en file of None \<Rightarrow> False | Some f \<Rightarrow> is_target f);
          is_target_path = target_goal path;
          l0 = \<lparr>l_exists = False, l_mtime_ptr = mp, tgt_name = None, tgt_len = 0\<rparr>
      in case entries_loop pf en is_tgt is_target_path file pidx 0 (searchpath path) l0 c of
           Inl e \<Rightarrow> Inl e
         | Inr (Some n, l, c') \<Rightarrow> Inr (Some n, c')
         | Inr (None, l, c') \<Rightarrow>
             (case tgt_name l of
                None \<Rightarrow> Inr (None, c')
              | Some t \<Rightarrow>
                  if \<not> 0 < tgt_len l then Inl AssertionFailure
                  else if is_target_path = 0 then Inl AssertionFailure
                  else
                    (let c1 = (if l_mtime_ptr l then c'\<lparr>mtime_cell := UNKNOWN_MTIME en\<rparr>
                               else c');
                         c2 = (if pidx then c1\<lparr>path_index_cell := 0\<rparr> else c1)
                     in Inr (Some (take (tgt_len l) t), c2))))"

subsection \<open>vpath_search\<close>

text \<open>\<open>if (vpath_index) ++*vpath_index;\<close>\<close>

definition bump_vpath_index :: "out_ptrs \<Rightarrow> out_cells \<Rightarrow> out_cells" where
  "bump_vpath_index ps c =
     (if vpath_index ps then c\<lparr>vpath_index_cell := vpath_index_cell c + 1\<rparr> else c)"

text \<open>\<open>if (vpath_index != NULL) *vpath_index = *path_index = 0;\<close>\<close>

definition reset_indices :: "out_ptrs \<Rightarrow> out_cells \<Rightarrow> out_cells" where
  "reset_indices ps c =
     (if vpath_index ps then c\<lparr>vpath_index_cell := 0, path_index_cell := 0\<rparr> else c)"

text \<open>\<open>if (target_path) *target_path = v->target_goal;\<close>\<close>

definition store_target_path :: "out_ptrs \<Rightarrow> vpath \<Rightarrow> out_cells \<Rightarrow> out_cells" where
  "store_target_path ps v c =
     (if target_path ps then c\<lparr>target_path_cell := target_goal v\<rparr> else c)"

text \<open>
  The first loop over the chain.  The list in the result is the chain as the loop leaves
  it: each visited element has had its \<open>target_goal\<close> set to 0 for the call and set
  back to \<open>save_goal\<close> after it.
\<close>

fun nontarget_phase ::
  "platform \<Rightarrow> env \<Rightarrow> string \<Rightarrow> out_ptrs \<Rightarrow> vpath list \<Rightarrow> out_cells \<Rightarrow>
   error + (string option \<times> vpath list \<times> out_cells)" where
  "nontarget_phase pf en file ps [] c = Inr (None, [], c)"
| "nontarget_phase pf en file ps (v # vs) c =
     (case vpath_match v file of
        Inl e \<Rightarrow> Inl e
      | Inr True \<Rightarrow>
          (let save_goal = target_goal v;
               v0 = v\<lparr>target_goal := 0\<rparr>
           in case selective_vpath_search pf en v0 file (mtime_ptr ps) (path_index ps) c of
                Inl e \<Rightarrow> Inl e
              | Inr (Some p, c') \<Rightarrow>
                  (let v1 = v0\<lparr>target_goal := save_goal\<rparr>
                   in Inr (Some p, v1 # vs, store_target_path ps v1 c'))
              | Inr (None, c') \<Rightarrow>
                  (let v1 = v0\<lparr>target_goal := save_goal\<rparr>
                   in case nontarget_phase pf en file ps vs (bump_vpath_index ps c') of
                        Inl e \<Rightarrow> Inl e
                      | Inr (r, vs', c'') \<Rightarrow> Inr (r, v1 # vs', c'')))
      | Inr False \<Rightarrow>
          (case nontarget_phase pf en file ps vs (bump_vpath_index ps c) of
             Inl e \<Rightarrow> Inl e
           | Inr (r, vs', c') \<Rightarrow> Inr (r, v # vs', c')))"

text \<open>
  The second loop: \<open>v->target_goal && vpath_match (v, file)\<close>, so the pattern is matched
  only for a list whose flag is set.
\<close>

fun target_phase ::
  "platform \<Rightarrow> env \<Rightarrow> string \<Rightarrow> out_ptrs \<Rightarrow> vpath list \<Rightarrow> out_cells \<Rightarrow>
   error + (string option \<times> out_cells)" where
  "target_phase pf en file ps [] c = Inr (None, c)"
| "target_phase pf en file ps (v # vs) c =
     (if target_goal v \<noteq> 0 then
        (case vpath_match v file of
           Inl e \<Rightarrow> Inl e
         | Inr True \<Rightarrow>
             (case selective_vpath_search pf en v file (mtime_ptr ps) (path_index ps) c of
                Inl e \<Rightarrow> Inl e
              | Inr (Some p, c') \<Rightarrow> Inr (Some p, store_target_path ps v c')
              | Inr (None, c') \<Rightarrow> target_phase pf en file ps vs (bump_vpath_index ps c'))
         | Inr False \<Rightarrow> target_phase pf en file ps vs (bump_vpath_index ps c))
      else target_phase pf en file ps vs (bump_vpath_index ps c))"

text \<open>The guard: \<open>file\<close> starts at the root, or there is no list at all.\<close>

definition nothing_to_do :: "platform \<Rightarrow> globals \<Rightarrow> string \<Rightarrow> bool" where
  "nothing_to_do pf g file =
     (cchar file 0 = CHR ''/''
      \<or> (have_dos_paths pf \<and> (cchar file 0 = CHR 0x5C \<or> cchar file 1 = CHR '':''))
      \<or> (vpaths g = [] \<and> general_vpath g = None))"

text \<open>
  \<open>vpath_search\<close>.  The result is the returned name, the globals and the cells after the
  call.  (With DOS paths \<open>file[1]\<close> of the empty string is a read past the terminator of
  \<open>file\<close>; \<open>cchar\<close> gives NUL there.)
\<close>

definition vpath_search ::
  "platform \<Rightarrow> env \<Rightarrow> globals \<Rightarrow> string \<Rightarrow> out_ptrs \<Rightarrow> out_cells \<Rightarrow>
   error + (string option \<times> globals \<times> out_cells)" where
  "vpath_search pf en g file ps c =
     (let c0 = (if target_path ps then c\<lparr>target_path_cell := 0\<rparr> else c)
      in if vpath_index ps \<and> \<not> path_index ps then Inl AssertionFailure
         else
           (let c1 = reset_indices ps c0
            in if nothing_to_do pf g file then Inr (None, g, c1)
               else
                 (case nontarget_phase pf en file ps (vpaths g) c1 of
                    Inl e \<Rightarrow> Inl e
                  | Inr (Some p, vs, c2) \<Rightarrow> Inr (Some p, g\<lparr>vpaths := vs\<rparr>, c2)
                  | Inr (None, vs, c2) \<Rightarrow>
                      (let g1 = g\<lparr>vpaths := vs\<rparr>
                       in case target_phase pf en file ps (vpaths g1) (reset_indices ps c2) of
                            Inl e \<Rightarrow> Inl e
                          | Inr (Some p, c3) \<Rightarrow> Inr (Some p, g1, c3)
                          | Inr (None, c3) \<Rightarrow>
                              (let c4 = reset_indices ps c3
                               in case general_vpath g1 of
                                    None \<Rightarrow> Inr (None, g1, c4)
                                  | Some gv \<Rightarrow>
                                      (case selective_vpath_search pf en gv file
                                              (mtime_ptr ps) (path_index ps) c4 of
                                         Inl e \<Rightarrow> Inl e
                                       | Inr (Some p, c5) \<Rightarrow>
                                           Inr (Some p, g1, store_target_path ps gv c5)
                                       | Inr (None, c5) \<Rightarrow> Inr (None, g1, c5)))))))"

subsection \<open>convert_vpath_from_windows32 and convert_Path_to_windows32\<close>

text \<open>
  Both functions first size their buffer in a dry run; the embedding keeps the text they
  write, as a list, and not the buffer.  (Their assertions compare the length written
  with the size of the dry run, which counts the bytes that the conversion writes.)
  \<open>strip_blanks\<close> is the loop
  \<open>while (tgt > cpath && ISBLANK (*(tgt - 1))) tgt--\<close>.
\<close>

definition strip_blanks :: "string \<Rightarrow> string" where
  "strip_blanks tgt = rev (dropWhile ISBLANK (rev tgt))"

text \<open>
  The first pass of \<open>convert_vpath_from_windows32\<close>: is there a delimiter outside a
  quoted string?
\<close>

fun delim_found :: "char \<Rightarrow> bool \<Rightarrow> string \<Rightarrow> bool" where
  "delim_found delim instring [] = False"
| "delim_found delim instring (c # cs) =
     (if c = CHR 0x22 then delim_found delim (\<not> instring) cs
      else if c = delim \<and> \<not> instring then True
      else delim_found delim instring cs)"

text \<open>
  The conversion loop, with \<open>src\<close> the text still to read and \<open>tgt\<close> the text written.
  After a delimiter the blanks behind it are skipped, and the test for a backslash at the
  end of the loop body then looks at the last byte skipped.
\<close>

function from_windows32_loop ::
  "char \<Rightarrow> bool \<Rightarrow> string \<Rightarrow> bool \<Rightarrow> bool \<Rightarrow> string \<Rightarrow> string" where
  "from_windows32_loop delim dfound [] instring isescaped tgt = tgt"
| "from_windows32_loop delim dfound (c # cs) instring isescaped tgt =
     (if c = CHR 0x22 then
        from_windows32_loop delim dfound cs (\<not> instring) False tgt
      else if ISBLANK c \<and> \<not> isescaped \<and> (instring \<or> dfound) then
        from_windows32_loop delim dfound cs instring False (tgt @ [CHR 0x5C, CHR '' ''])
      else if c = delim \<and> \<not> instring then
        from_windows32_loop delim dfound (dropWhile ISBLANK cs) instring
          (if takeWhile ISBLANK cs = [] \<and> c = CHR 0x5C then \<not> isescaped else False)
          (strip_blanks tgt @ [CHR '' ''])
      else
        from_windows32_loop delim dfound cs instring
          (if \<not> instring \<and> c = CHR 0x5C then \<not> isescaped else False)
          (tgt @ [c]))"
  by pat_completeness auto
termination
  by (relation "measure (\<lambda>(delim, dfound, src, instring, isescaped, tgt). length src)")
    (auto simp: less_Suc_eq_le length_dropWhile_le)

definition convert_vpath_from_windows32 :: "string \<Rightarrow> char \<Rightarrow> string option" where
  "convert_vpath_from_windows32 Path delim =
     (let path = dropWhile ISBLANK Path
      in if path = [] then None
         else Some (strip_blanks
                (from_windows32_loop delim (delim_found delim False path) path False False [])))"

text \<open>
  \<open>enclose\<close> is the insertion of the two double quotes around the text written since
  \<open>mark\<close>: a quote is appended, the text from \<open>mark\<close> on is moved up by one byte, and a
  quote is stored at \<open>mark\<close>.
\<close>

definition enclose :: "string \<Rightarrow> nat \<Rightarrow> string" where
  "enclose tgt mark = take mark tgt @ [CHR 0x22] @ drop mark (tgt @ [CHR 0x22])"

text \<open>
  The conversion loop of \<open>convert_Path_to_windows32\<close>.  \<open>src[1]\<close> of the last byte is
  the terminator, which is not a blank.
\<close>

fun to_windows32_loop ::
  "char \<Rightarrow> string \<Rightarrow> bool \<Rightarrow> bool \<Rightarrow> string \<Rightarrow> nat \<Rightarrow> string" where
  "to_windows32_loop delim [] instring enquote tgt mark =
     (if enquote then enclose tgt mark else tgt)"
| "to_windows32_loop delim [c] instring enquote tgt mark =
     (if \<not> instring \<and> ISBLANK c then
        (let tgt1 = (if enquote then enclose tgt mark else tgt) @ [delim]
         in to_windows32_loop delim [] instring False tgt1 (length tgt1))
      else
        to_windows32_loop delim [] (if c = CHR 0x22 then \<not> instring else instring)
          enquote (tgt @ [c]) mark)"
| "to_windows32_loop delim (c # b # cs) instring enquote tgt mark =
     (if \<not> instring \<and> c = CHR 0x5C \<and> ISBLANK b then
        to_windows32_loop delim cs instring True (tgt @ [CHR '' '']) mark
      else if \<not> instring \<and> ISBLANK c then
        (let tgt1 = (if enquote then enclose tgt mark else tgt) @ [delim]
         in to_windows32_loop delim (b # cs) instring False tgt1 (length tgt1))
      else
        to_windows32_loop delim (b # cs) (if c = CHR 0x22 then \<not> instring else instring)
          enquote (tgt @ [c]) mark)"

definition convert_Path_to_windows32 :: "string \<Rightarrow> char \<Rightarrow> string option" where
  "convert_Path_to_windows32 Path delim =
     (let path = dropWhile ISBLANK Path
      in if path = [] then None
         else Some (to_windows32_loop delim path False False [] 0))"

subsection \<open>construct_vpath_list\<close>

text \<open>
  The test of the removal loop.  The offsets of the two \<open>%\<close> are compared as
  \<open>percent - pattern == path->percent - path->pattern\<close>; when just one of the two
  pointers is null the two differences are not the same.
\<close>

definition same_listing :: "string option \<Rightarrow> nat option \<Rightarrow> int \<Rightarrow> vpath \<Rightarrow> bool" where
  "same_listing pat pct is_target_path path =
     ((case pat of
         None \<Rightarrow> True
       | Some pt \<Rightarrow>
           ((pct = None \<and> percent path = None)
            \<or> (case (pct, percent path) of (Some a, Some b) \<Rightarrow> a = b | _ \<Rightarrow> False))
           \<and> pt = pattern path)
      \<and> target_goal path = is_target_path)"

text \<open>The removal loop over the chain: a matching element is unlinked and freed.\<close>

fun remove_listings :: "string option \<Rightarrow> nat option \<Rightarrow> int \<Rightarrow> vpath list \<Rightarrow> vpath list" where
  "remove_listings pat pct is_target_path [] = []"
| "remove_listings pat pct is_target_path (path # paths) =
     (if same_listing pat pct is_target_path path
      then remove_listings pat pct is_target_path paths
      else path # remove_listings pat pct is_target_path paths)"

text \<open>
  The inner loop that finds the end of an entry: the number of bytes \<open>p - v\<close> it runs
  over, where \<open>off\<close> is the number already passed.  Where \<open>HAVE_DOS_PATHS\<close> is defined
  and the separator is a colon, a colon after a drive letter and before a slash or a
  backslash is part of the entry.
\<close>

fun entry_end :: "platform \<Rightarrow> bool \<Rightarrow> nat \<Rightarrow> string \<Rightarrow> nat" where
  "entry_end pf isescaped off [] = off"
| "entry_end pf isescaped off (c # cs) =
     (if (c \<noteq> path_separator_char pf
          \<or> (have_dos_paths pf \<and> path_separator_char pf = CHR '':'' \<and> off = 1
              \<and> (cchar cs 0 = CHR ''/'' \<or> cchar cs 0 = CHR 0x5C)))
         \<and> (\<not> ISBLANK c \<or> isescaped)
      then entry_end pf (if c = CHR 0x5C then \<not> isescaped else False) (Suc off) cs
      else off)"

text \<open>
  The length of the entry after the trailing slash is taken off; \<open>v\<close> is the text at
  the start of the entry and \<open>len\<close> the length found by the inner loop.
\<close>

definition strip_trailing_slash :: "platform \<Rightarrow> string \<Rightarrow> nat \<Rightarrow> nat" where
  "strip_trailing_slash pf v len =
     (if have_dos_paths pf then
        (if (3 < len \<or> (1 < len \<and> cchar v 1 \<noteq> CHR '':''))
            \<and> (cchar v (len - 1) = CHR ''/'' \<or> cchar v (len - 1) = CHR 0x5C)
         then len - 1 else len)
      else
        (if 1 < len \<and> cchar v (len - 1) = CHR ''/'' then len - 1 else len))"

lemma entry_end_le: "entry_end pf isescaped off s \<le> off + length s"
proof (induction s arbitrary: isescaped off)
  case Nil
  then show ?case by simp
next
  case (Cons c cs)
  have "entry_end pf e (Suc off) cs \<le> Suc (off + length cs)" for e
    using Cons.IH [of e "Suc off"] by simp
  then show ?case by simp
qed

lemma entry_end_ge: "off \<le> entry_end pf isescaped off s"
proof (induction s arbitrary: isescaped off)
  case Nil
  then show ?case by simp
next
  case (Cons c cs)
  have "off \<le> entry_end pf e (Suc off) cs" for e
    using Cons.IH [of "Suc off" e] by simp
  then show ?case by simp
qed

lemma entry_end_stops:
  assumes "entry_end pf False 0 (c # cs) = 0"
  shows "blank_or_pathsep pf c"
proof (rule ccontr)
  assume "\<not> blank_or_pathsep pf c"
  then have "entry_end pf False 0 (c # cs)
      = entry_end pf (if c = CHR 0x5C then True else False) (Suc 0) cs"
    by (simp add: blank_or_pathsep_def)
  moreover have "Suc 0 \<le> entry_end pf (if c = CHR 0x5C then True else False) (Suc 0) cs"
    by (rule entry_end_ge)
  ultimately show False using assms by simp
qed

lemma parse_step_shorter:
  assumes "p \<noteq> []"
  shows "length (dropWhile (blank_or_pathsep pf) (drop (entry_end pf False 0 p) p)) < length p"
proof (cases "entry_end pf False 0 p = 0")
  case True
  from assms obtain c cs where p: "p = c # cs" by (cases p) auto
  with True have "blank_or_pathsep pf c" by (metis entry_end_stops)
  with p True have "dropWhile (blank_or_pathsep pf) (drop (entry_end pf False 0 p) p)
      = dropWhile (blank_or_pathsep pf) cs" by simp
  with p show ?thesis by (simp add: less_Suc_eq_le length_dropWhile_le)
next
  case False
  have "length (dropWhile (blank_or_pathsep pf) (drop (entry_end pf False 0 p) p))
      \<le> length (drop (entry_end pf False 0 p) p)" by (rule length_dropWhile_le)
  also have "\<dots> < length p" using False assms by simp
  finally show ?thesis .
qed

text \<open>
  The outer loop \<open>while (*p != '\0')\<close>: the entries that are put on the list, in order.
  (The count \<open>maxelem\<close> only sizes the array and is not part of the embedding.)
  \<open>dir_name (strcache_add_len (v, len))\<close> registers the directory and returns its
  name, the first \<open>len\<close> bytes of the entry.
\<close>

function parse_dirpath :: "platform \<Rightarrow> string \<Rightarrow> string list" where
  "parse_dirpath pf p =
     (if p = [] then []
      else
        (let len = strip_trailing_slash pf p (entry_end pf False 0 p)
         in (if 1 < len \<or> cchar p 0 \<noteq> CHR ''.'' then [take len p] else [])
            @ parse_dirpath pf
                (dropWhile (blank_or_pathsep pf) (drop (entry_end pf False 0 p) p))))"
  by pat_completeness auto
termination
  by (relation "measure (\<lambda>(pf, p). length p)") (auto simp: parse_step_shorter)

declare parse_dirpath.simps [simp del]

text \<open>\<open>if (len > maxvpath) maxvpath = len;\<close> over the entries kept.\<close>

definition maxvpath_of :: "string list \<Rightarrow> nat" where
  "maxvpath_of es = fold (\<lambda>e m. if m < length e then length e else m) es 0"

text \<open>
  Under \<open>WINDOWS32\<close> the directory path is first converted with the delimiter \<open>;\<close>, and
  \<open>dirpath\<close> then points to the block that \<open>convert_vpath_from_windows32\<close> allocated;
  nothing is done when that returns null.
\<close>

definition canonical_dirpath :: "platform \<Rightarrow> string \<Rightarrow> string option" where
  "canonical_dirpath pf dp =
     (if windows32 pf then convert_vpath_from_windows32 dp CHR '';'' else Some dp)"

text \<open>
  \<open>while (STOP_SET (*dirpath, MAP_BLANK|MAP_PATHSEP)) ++dirpath;\<close>: the number of
  bytes by which \<open>dirpath\<close> itself is advanced over initial separators and blanks.
\<close>

definition initial_skip :: "platform \<Rightarrow> string \<Rightarrow> nat" where
  "initial_skip pf dp = length (takeWhile (blank_or_pathsep pf) dp)"

text \<open>
  The closing \<open>free (dirpath)\<close> of the \<open>WINDOWS32\<close> build.  It is given the pointer
  as the skipping loop left it: when that loop advanced it, the pointer is no longer
  the start of the allocated block and the \<open>free\<close> is invalid.  Other builds do not
  free the directory path.
\<close>

definition free_dirpath :: "platform \<Rightarrow> string \<Rightarrow> globals \<Rightarrow> error + globals" where
  "free_dirpath pf dp g =
     (if windows32 pf \<and> 0 < initial_skip pf dp then Inl InvalidFree else Inr g)"

text \<open>
  \<open>construct_vpath_list (pattern, dirpath, is_target_path)\<close> on the globals.  With a
  directory path and a null pattern, \<open>strcache_add (pattern)\<close> reads through the null
  pointer once an entry was kept.  The listing is linked into the chain before the
  directory path is freed.
\<close>

definition construct_vpath_list ::
  "platform \<Rightarrow> globals \<Rightarrow> string option \<Rightarrow> string option \<Rightarrow> int \<Rightarrow> error + globals" where
  "construct_vpath_list pf g pat dirpath is_target_path =
     (let pct = (case pat of None \<Rightarrow> None | Some pt \<Rightarrow> find_percent pt)
      in case dirpath of
           None \<Rightarrow> Inr (g\<lparr>vpaths := remove_listings pat pct is_target_path (vpaths g)\<rparr>)
         | Some dp \<Rightarrow>
             (case canonical_dirpath pf dp of
                None \<Rightarrow> Inr g
              | Some dp1 \<Rightarrow>
                  (let vp = parse_dirpath pf (dropWhile (blank_or_pathsep pf) dp1)
                   in if 0 < length vp then
                        (case pat of
                           None \<Rightarrow> Inl NullDereference
                         | Some pt \<Rightarrow>
                             free_dirpath pf dp1
                               (g\<lparr>vpaths :=
                                    \<lparr>pattern = pt, percent = pct, patlen = length pt,
                                     searchpath = vp, maxlen = maxvpath_of vp,
                                     target_goal = is_target_path\<rparr> # vpaths g\<rparr>))
                      else free_dirpath pf dp1 g)))"

subsection \<open>build_vpath_lists\<close>

text \<open>
  \<open>VPATH\<close> and \<open>GPATH\<close> are the values of \<open>variable_expand ("$(strip $(VPATH))")\<close> and
  \<open>variable_expand ("$(strip $(GPATH))")\<close>.  For each of the two the chain is emptied,
  the list is built with the pattern \<open>%\<close>, and what the chain then holds is stored in
  \<open>general_vpath\<close> or \<open>gpaths\<close>.
\<close>

definition chain_head :: "vpath list \<Rightarrow> vpath option" where
  "chain_head vs = (case vs of [] \<Rightarrow> None | v # _ \<Rightarrow> Some v)"

definition build_vpath_lists :: "platform \<Rightarrow> globals \<Rightarrow> string \<Rightarrow> string \<Rightarrow> error + globals" where
  "build_vpath_lists pf g VPATH GPATH =
     (let g1 = g\<lparr>vpaths := rev (vpaths g)\<rparr>
      in case (if VPATH \<noteq> [] then
                 (case construct_vpath_list pf (g1\<lparr>vpaths := []\<rparr>) (Some ''%'') (Some VPATH) 0 of
                    Inl e \<Rightarrow> Inl e
                  | Inr g' \<Rightarrow> Inr (g'\<lparr>general_vpath := chain_head (vpaths g'),
                                      vpaths := vpaths g1\<rparr>))
               else Inr g1) of
           Inl e \<Rightarrow> Inl e
         | Inr g2 \<Rightarrow>
             (if GPATH \<noteq> [] then
                (case construct_vpath_list pf (g2\<lparr>vpaths := []\<rparr>) (Some ''%'') (Some GPATH) 0 of
                   Inl e \<Rightarrow> Inl e
                 | Inr g' \<Rightarrow> Inr (g'\<lparr>gpaths := chain_head (vpaths g'),
                                     vpaths := vpaths g2\<rparr>))
              else Inr g2))"

subsection \<open>gpath_search\<close>

text \<open>
  The loop over \<open>gpaths->searchpath\<close>.  \<open>(*gp)[len]\<close> is read only after \<open>strneq\<close>
  succeeded; when the entry is shorter than \<open>len\<close> that read is past its terminator,
  otherwise it finds the NUL exactly when \<open>len\<close> is the length of the entry.
\<close>

fun gpath_loop :: "string list \<Rightarrow> string \<Rightarrow> nat \<Rightarrow> error + bool" where
  "gpath_loop [] file len = Inr False"
| "gpath_loop (gp # gps) file len =
     (if strneq gp file len then
        (if length gp < len then Inl OutOfBounds
         else if length gp = len then Inr True
         else gpath_loop gps file len)
      else gpath_loop gps file len)"

definition gpath_search :: "globals \<Rightarrow> string \<Rightarrow> nat \<Rightarrow> error + bool" where
  "gpath_search g file len =
     (case gpaths g of
        None \<Rightarrow> Inr False
      | Some gp \<Rightarrow>
          if len \<le> maxlen gp then gpath_loop (searchpath gp) file len else Inr False)"

text \<open>
  \<open>maxlen\<close> is at least the length of every directory of the list; the lists that
  \<open>construct_vpath_list\<close> builds have this property.
\<close>

definition maxlen_bounds :: "vpath \<Rightarrow> bool" where
  "maxlen_bounds v = (\<forall>e \<in> set (searchpath v). length e \<le> maxlen v)"

subsection \<open>Definitions for the statements\<close>

text \<open>
  What a call returned, without the cells: the abort, or the returned name (\<open>None\<close> for
  the null pointer).
\<close>

definition name_of :: "error + (string option \<times> 'a) \<Rightarrow> error + string option" where
  "name_of r = (case r of Inl e \<Rightarrow> Inl e | Inr (n, x) \<Rightarrow> Inr n)"

text \<open>Two steps of the scan agree up to the cells.\<close>

definition same_step :: "step \<Rightarrow> step \<Rightarrow> bool" where
  "same_step a b =
     (case a of
        Abort e \<Rightarrow> b = Abort e
      | Next l x \<Rightarrow> (\<exists>y. b = Next l y)
      | Found n x \<Rightarrow> (\<exists>y. b = Found n y))"

text \<open>
  The order of the search as the specification words it (the second definition of the
  refinement, to be compared with \<open>vpath_search\<close>): every selective list whose pattern
  matches, in chain order, with its target-goal flag read as false; then the matching
  lists whose flag is set, in chain order, as they are; then the general list.
  \<open>first_success\<close> tries the lists of such an order one after the other and returns what
  the first scan that does not return null returns.
\<close>

definition matches :: "string \<Rightarrow> vpath \<Rightarrow> bool" where
  "matches fl v = (vpath_match v fl = Inr True)"

definition search_order :: "globals \<Rightarrow> string \<Rightarrow> vpath list" where
  "search_order g fl =
     map (\<lambda>v. v\<lparr>target_goal := 0\<rparr>) (filter (matches fl) (vpaths g))
     @ filter (\<lambda>v. target_goal v \<noteq> 0 \<and> matches fl v) (vpaths g)
     @ (case general_vpath g of None \<Rightarrow> [] | Some gv \<Rightarrow> [gv])"

fun first_success ::
  "platform \<Rightarrow> env \<Rightarrow> string \<Rightarrow> bool \<Rightarrow> bool \<Rightarrow> out_cells \<Rightarrow> vpath list \<Rightarrow>
   error + string option" where
  "first_success pf en fl mp pidx c [] = Inr None"
| "first_success pf en fl mp pidx c (v # vs) =
     (case selective_vpath_search pf en v fl mp pidx c of
        Inl e \<Rightarrow> Inl e
      | Inr (Some p, c') \<Rightarrow> Inr (Some p)
      | Inr (None, c') \<Rightarrow> first_success pf en fl mp pidx c vs)"

text \<open>
  A POSIX build and the data of the scenario of the specification: one selective list for
  \<open>%.c\<close> with the directories \<open>src\<close> and \<open>lib\<close>, no general list, and \<open>lib/util.c\<close>
  present in the directory cache and on disk.
\<close>

definition posix :: platform where
  "posix = \<lparr>have_dos_paths = False, windows32 = False, path_separator_char = CHR '':''\<rparr>"

text \<open>A \<open>WINDOWS32\<close> build: DOS paths, and the semicolon as path separator.\<close>

definition w32 :: platform where
  "w32 = \<lparr>have_dos_paths = True, windows32 = True, path_separator_char = CHR '';''\<rparr>"

definition scenario_env :: env where
  "scenario_env =
     \<lparr>lookup_file = (\<lambda>n. None),
      dir_file_exists_p = (\<lambda>d n. d = ''lib'' \<and> n = ''util.c''),
      stat_modtime = (\<lambda>n. if n = ''lib/util.c'' then Some 1000 else None),
      OLD_MTIME = 2, NEW_MTIME = - 1, UNKNOWN_MTIME = 0\<rparr>"

definition scenario_globals :: globals where
  "scenario_globals =
     \<lparr>vpaths = [\<lparr>pattern = ''%.c'', percent = Some 0, patlen = 3,
                  searchpath = [''src'', ''lib''], maxlen = 3, target_goal = 0\<rparr>],
      general_vpath = None, gpaths = None\<rparr>"

definition all_ptrs :: out_ptrs where
  "all_ptrs = \<lparr>mtime_ptr = True, target_path = True, vpath_index = True, path_index = True\<rparr>"

definition cells0 :: out_cells where
  "cells0 = \<lparr>mtime_cell = 7, target_path_cell = 7, vpath_index_cell = 7, path_index_cell = 7\<rparr>"

text \<open>
  Two lists for \<open>%.o\<close>: the first one declared is a target-goal list for \<open>out\<close>, the
  second an ordinary list for \<open>obj\<close>; \<open>obj/foo.o\<close> exists, \<open>out/foo.o\<close> does not.
\<close>

definition stacked_env :: env where
  "stacked_env =
     \<lparr>lookup_file = (\<lambda>n. None),
      dir_file_exists_p = (\<lambda>d n. d = ''obj'' \<and> n = ''foo.o''),
      stat_modtime = (\<lambda>n. if n = ''obj/foo.o'' then Some 1000 else None),
      OLD_MTIME = 2, NEW_MTIME = - 1, UNKNOWN_MTIME = 0\<rparr>"

definition stacked_globals :: globals where
  "stacked_globals =
     \<lparr>vpaths = [\<lparr>pattern = ''%.o'', percent = Some 0, patlen = 3,
                  searchpath = [''out''], maxlen = 3, target_goal = 1\<rparr>,
                \<lparr>pattern = ''%.o'', percent = Some 0, patlen = 3,
                  searchpath = [''obj''], maxlen = 3, target_goal = 0\<rparr>],
      general_vpath = None, gpaths = None\<rparr>"

text \<open>
  A directory is \<open>rejected\<close> for a file when the scan finds no existing candidate in
  it: the database has no entry for the candidate, or has one that the target rule
  refuses, and the directory cache does not list the file.
\<close>

definition rejected :: "platform \<Rightarrow> env \<Rightarrow> string \<Rightarrow> string \<Rightarrow> bool" where
  "rejected pf en fl d =
     ((case lookup_file en (candidate_name pf d fl) of
         None \<Rightarrow> True
       | Some e \<Rightarrow> (case lookup_file en fl of None \<Rightarrow> False | Some f \<Rightarrow> is_target f)
                    \<and> \<not> is_target e)
      \<and> \<not> dir_file_exists_p en (candidate_dir pf d fl) (filename_of pf fl))"

text \<open>What \<open>construct_vpath_list\<close> links into the chain, and the key of a listing.\<close>

definition built_listing :: "string \<Rightarrow> string list \<Rightarrow> int \<Rightarrow> vpath" where
  "built_listing pt vp tg =
     \<lparr>pattern = pt, percent = find_percent pt, patlen = length pt,
      searchpath = vp, maxlen = maxvpath_of vp, target_goal = tg\<rparr>"

definition same_key :: "string \<Rightarrow> int \<Rightarrow> vpath \<Rightarrow> bool" where
  "same_key pt tg q = (pattern q = pt \<and> percent q = find_percent pt \<and> target_goal q = tg)"

text \<open>
  The entries of a directory path as the inner loop delimits them, before the trailing
  slash is taken off and before \<open>.\<close> is dropped.
\<close>

function raw_entries :: "platform \<Rightarrow> string \<Rightarrow> string list" where
  "raw_entries pf p =
     (if p = [] then []
      else take (entry_end pf False 0 p) p
           # raw_entries pf (dropWhile (blank_or_pathsep pf) (drop (entry_end pf False 0 p) p)))"
  by pat_completeness auto
termination
  by (relation "measure (\<lambda>(pf, p). length p)") (auto simp: parse_step_shorter)


declare raw_entries.simps [simp del]

text \<open>
  The canonical form of an entry as the specification words it: one trailing slash (or,
  with DOS paths, backslash) is taken off, unless the entry is the root or a bare drive
  prefix such as \<open>C:/\<close>.
\<close>

definition is_root_or_drive :: "platform \<Rightarrow> string \<Rightarrow> bool" where
  "is_root_or_drive pf raw =
     (raw = ''/''
      \<or> (have_dos_paths pf \<and>
          (raw = [CHR 0x5C] \<or> (length raw = 3 \<and> raw ! 1 = CHR '':''))))"

definition ends_in_slash :: "platform \<Rightarrow> string \<Rightarrow> bool" where
  "ends_in_slash pf raw =
     (raw \<noteq> [] \<and> (last raw = CHR ''/'' \<or> (have_dos_paths pf \<and> last raw = CHR 0x5C)))"

definition one_slash_stripped :: "platform \<Rightarrow> string \<Rightarrow> string" where
  "one_slash_stripped pf raw =
     (if ends_in_slash pf raw \<and> \<not> is_root_or_drive pf raw then butlast raw else raw)"

text \<open>The text starts an entry: it is empty or does not start with a blank or separator.\<close>

definition starts_entry :: "platform \<Rightarrow> string \<Rightarrow> bool" where
  "starts_entry pf p = (case p of [] \<Rightarrow> True | c # cs \<Rightarrow> \<not> blank_or_pathsep pf c)"

text \<open>
  Data for the target-goal fallback: \<open>foo.o\<close> is a declared target that exists nowhere;
  a target-goal list for \<open>%.o\<close> with the directories \<open>/build\<close> and \<open>/alt\<close>, and
  one with the root directory alone.
\<close>

definition fallback_env :: env where
  "fallback_env =
     \<lparr>lookup_file = (\<lambda>n. if n = ''foo.o'' then Some \<lparr>is_target = True, last_mtime = 0\<rparr>
                            else None),
      dir_file_exists_p = (\<lambda>d n. False),
      stat_modtime = (\<lambda>n. None),
      OLD_MTIME = 2, NEW_MTIME = - 1, UNKNOWN_MTIME = 0\<rparr>"

definition fallback_globals :: globals where
  "fallback_globals =
     \<lparr>vpaths = [\<lparr>pattern = ''%.o'', percent = Some 0, patlen = 3,
                  searchpath = [''/build'', ''/alt''], maxlen = 6, target_goal = 1\<rparr>],
      general_vpath = None, gpaths = None\<rparr>"

definition root_globals :: globals where
  "root_globals =
     \<lparr>vpaths = [\<lparr>pattern = ''%.o'', percent = Some 0, patlen = 3,
                  searchpath = [''/''], maxlen = 1, target_goal = 1\<rparr>],
      general_vpath = None, gpaths = None\<rparr>"

text \<open>
  Data for the target rule: \<open>foo.o\<close> is a declared target, and the database holds an
  entry for \<open>src/foo.o\<close> that is not a target.  In \<open>db_only_env\<close> the file is in no
  directory; in \<open>on_disk_env\<close> the directory cache lists \<open>foo.o\<close> in \<open>src\<close> and
  \<open>stat\<close> finds it.
\<close>

definition db_only_env :: env where
  "db_only_env =
     \<lparr>lookup_file = (\<lambda>n. if n = ''foo.o'' then Some \<lparr>is_target = True, last_mtime = 0\<rparr>
                            else if n = ''src/foo.o''
                            then Some \<lparr>is_target = False, last_mtime = 0\<rparr>
                            else None),
      dir_file_exists_p = (\<lambda>d n. False),
      stat_modtime = (\<lambda>n. None),
      OLD_MTIME = 2, NEW_MTIME = - 1, UNKNOWN_MTIME = 0\<rparr>"

definition on_disk_env :: env where
  "on_disk_env =
     \<lparr>lookup_file = (\<lambda>n. if n = ''foo.o'' then Some \<lparr>is_target = True, last_mtime = 0\<rparr>
                            else if n = ''src/foo.o''
                            then Some \<lparr>is_target = False, last_mtime = 0\<rparr>
                            else None),
      dir_file_exists_p = (\<lambda>d n. d = ''src'' \<and> n = ''foo.o''),
      stat_modtime = (\<lambda>n. if n = ''src/foo.o'' then Some 1000 else None),
      OLD_MTIME = 2, NEW_MTIME = - 1, UNKNOWN_MTIME = 0\<rparr>"

definition src_list :: vpath where
  "src_list = \<lparr>pattern = ''%.o'', percent = Some 0, patlen = 3,
               searchpath = [''src''], maxlen = 3, target_goal = 0\<rparr>"

definition scan_start :: locals where
  "scan_start = \<lparr>l_exists = False, l_mtime_ptr = True, tgt_name = None, tgt_len = 0\<rparr>"

text \<open>
  For the round trip of the two conversions.  \<open>join_with\<close> writes a list of directory
  strings with a separator between them; \<open>escape_blanks\<close> is a directory in canonical
  form, each space preceded by a backslash; \<open>quoted\<close> is a directory in the host form
  that \<open>convert_Path_to_windows32\<close> writes, in double quotes when it has a space.  A
  directory is \<open>plain_dir\<close> when it is non-empty, has no double quote, delimiter or tab,
  does not start or end with a space, does not end with a backslash and has no backslash
  directly before a space; a delimiter is \<open>plain_delim\<close> when it is not a double quote,
  a blank or a backslash.  \<open>esc_after\<close> is the flag \<open>isescaped\<close> after a run of bytes.
\<close>

fun join_with :: "char \<Rightarrow> string list \<Rightarrow> string" where
  "join_with sep [] = []"
| "join_with sep [d] = d"
| "join_with sep (d # d2 # ds) = d @ sep # join_with sep (d2 # ds)"

definition escape_blanks :: "string \<Rightarrow> string" where
  "escape_blanks d = concat (map (\<lambda>c. if c = CHR '' '' then [CHR 0x5C, CHR '' ''] else [c]) d)"

definition quoted :: "string \<Rightarrow> string" where
  "quoted d = (if CHR '' '' \<in> set d then CHR 0x22 # d @ [CHR 0x22] else d)"

fun no_escaped_blank :: "string \<Rightarrow> bool" where
  "no_escaped_blank [] = True"
| "no_escaped_blank [c] = True"
| "no_escaped_blank (c # b # cs) = (\<not> (c = CHR 0x5C \<and> b = CHR '' '') \<and> no_escaped_blank (b # cs))"

definition plain_dir :: "char \<Rightarrow> string \<Rightarrow> bool" where
  "plain_dir delim d =
     (d \<noteq> [] \<and> CHR 0x22 \<notin> set d \<and> delim \<notin> set d \<and> CHR 0x09 \<notin> set d
      \<and> hd d \<noteq> CHR '' '' \<and> last d \<noteq> CHR '' '' \<and> last d \<noteq> CHR 0x5C
      \<and> no_escaped_blank d)"

definition plain_delim :: "char \<Rightarrow> bool" where
  "plain_delim delim = (delim \<noteq> CHR 0x22 \<and> \<not> ISBLANK delim \<and> delim \<noteq> CHR 0x5C)"

fun esc_after :: "bool \<Rightarrow> string \<Rightarrow> bool" where
  "esc_after e [] = e"
| "esc_after e (c # cs) = esc_after (if c = CHR 0x5C then \<not> e else False) cs"

section \<open>Properties\<close>

subsection \<open>The scan of one list writes only when it returns a name\<close>

lemma try_entry_Next:
  assumes "try_entry pf en t tp file pidx i d l c = Next l' c'"
  shows "c' = c \<and> l_exists l' = False \<and> l_mtime_ptr l' = l_mtime_ptr l"
  using assms
  by (auto simp: try_entry_def found_file_def Let_def split: option.splits if_splits)

lemma try_entry_same_step:
  "same_step (try_entry pf en t tp file pidx i d l c) (try_entry pf en t tp file pidx i d l c')"
  by (auto simp: same_step_def try_entry_def found_file_def Let_def split: option.splits if_splits)

lemma entries_loop_None:
  "entries_loop pf en t tp file pidx i ds l c = Inr (None, l', c') \<Longrightarrow>
   c' = c \<and> l_mtime_ptr l' = l_mtime_ptr l"
proof (induction ds arbitrary: i l c)
  case Nil
  then show ?case by simp
next
  case (Cons d ds)
  show ?case
  proof (cases "try_entry pf en t tp file pidx i d l c")
    case (Found n x)
    with Cons.prems show ?thesis by simp
  next
    case (Abort e)
    with Cons.prems show ?thesis by simp
  next
    case (Next l1 c1)
    with Cons.prems have "entries_loop pf en t tp file pidx (Suc i) ds l1 c1 = Inr (None, l', c')"
      by simp
    then have "c' = c1 \<and> l_mtime_ptr l' = l_mtime_ptr l1" by (rule Cons.IH)
    with try_entry_Next [OF Next] show ?thesis by simp
  qed
qed

lemma entries_loop_indep:
  "(case entries_loop pf en t tp fl pidx i ds l c of
      Inl e \<Rightarrow> entries_loop pf en t tp fl pidx i ds l c' = Inl e
    | Inr (n, l1, x) \<Rightarrow> (\<exists>y. entries_loop pf en t tp fl pidx i ds l c' = Inr (n, l1, y)))"
proof (induction ds arbitrary: i l c c')
  case Nil
  then show ?case by simp
next
  case (Cons d ds)
  have ss: "same_step (try_entry pf en t tp fl pidx i d l c) (try_entry pf en t tp fl pidx i d l c')"
    by (rule try_entry_same_step)
  show ?case
  proof (cases "try_entry pf en t tp fl pidx i d l c")
    case (Found n x)
    with ss show ?thesis by (auto simp: same_step_def)
  next
    case (Abort e)
    with ss show ?thesis by (auto simp: same_step_def)
  next
    case (Next l1 c1)
    with ss obtain y where "try_entry pf en t tp fl pidx i d l c' = Next l1 y"
      by (auto simp: same_step_def)
    with Next Cons.IH [where i = "Suc i" and l = l1 and c = c1 and c' = y] show ?thesis
      by (auto split: sum.splits prod.splits)
  qed
qed

lemma selective_None:
  "selective_vpath_search pf en path file mp pidx c = Inr (None, c') \<Longrightarrow> c' = c"
  by (auto simp: selective_vpath_search_def Let_def
      split: sum.splits option.splits prod.splits if_splits dest: entries_loop_None)

lemma selective_name_indep:
  "name_of (selective_vpath_search pf en path fl mp pidx c)
   = name_of (selective_vpath_search pf en path fl mp pidx c')"
  using entries_loop_indep [where pf = pf and en = en
      and t = "case lookup_file en fl of None \<Rightarrow> False | Some f \<Rightarrow> is_target f"
      and tp = "target_goal path" and fl = fl and pidx = pidx and i = 0
      and ds = "searchpath path"
      and l = "\<lparr>l_exists = False, l_mtime_ptr = mp, tgt_name = None, tgt_len = 0\<rparr>"
      and c = c and c' = c']
  by (auto simp: selective_vpath_search_def name_of_def Let_def
      split: sum.splits option.splits prod.splits if_splits)

lemma first_success_append:
  "first_success pf en fl mp pidx c (xs @ ys) =
     (case first_success pf en fl mp pidx c xs of
        Inl e \<Rightarrow> Inl e
      | Inr (Some p) \<Rightarrow> Inr (Some p)
      | Inr None \<Rightarrow> first_success pf en fl mp pidx c ys)"
  by (induction xs) (auto split: sum.splits option.splits prod.splits)

lemma vpath_match_total:
  "pattern v \<noteq> [] \<Longrightarrow> vpath_match v fl = Inr (matches fl v)"
  by (auto simp: vpath_match_def matches_def Let_def)

lemma selective_cases:
  obtains (abort) e where "selective_vpath_search pf en v fl mp pidx c = Inl e"
      "\<And>c'. selective_vpath_search pf en v fl mp pidx c' = Inl e"
    | (found) p x where "selective_vpath_search pf en v fl mp pidx c = Inr (Some p, x)"
      "\<And>c'. \<exists>y. selective_vpath_search pf en v fl mp pidx c' = Inr (Some p, y)"
    | (none) "\<And>c'. selective_vpath_search pf en v fl mp pidx c' = Inr (None, c')"
proof (cases "selective_vpath_search pf en v fl mp pidx c")
  case (Inl e)
  have "selective_vpath_search pf en v fl mp pidx c' = Inl e" for c'
    using selective_name_indep [of pf en v fl mp pidx c c'] Inl
    by (auto simp: name_of_def split: sum.splits prod.splits)
  with Inl show ?thesis by (rule abort)
next
  case (Inr r)
  obtain n x where r: "r = (n, x)" by (cases r)
  show ?thesis
  proof (cases n)
    case None
    have "selective_vpath_search pf en v fl mp pidx c' = Inr (None, c')" for c'
    proof -
      from selective_name_indep [of pf en v fl mp pidx c c'] Inr r None
      obtain y where y: "selective_vpath_search pf en v fl mp pidx c' = Inr (None, y)"
        by (auto simp: name_of_def split: sum.splits prod.splits)
      from selective_None [OF y] y show ?thesis by simp
    qed
    then show ?thesis by (rule none)
  next
    case (Some p)
    have "\<exists>y. selective_vpath_search pf en v fl mp pidx c' = Inr (Some p, y)" for c'
      using selective_name_indep [of pf en v fl mp pidx c c'] Inr r Some
      by (auto simp: name_of_def split: sum.splits prod.splits)
    with Inr r Some show ?thesis by (auto intro: found)
  qed
qed

lemma nontarget_phase_order:
  assumes "\<forall>v \<in> set vs. pattern v \<noteq> []"
  shows "name_of (nontarget_phase pf en fl ps vs c)
         = first_success pf en fl (mtime_ptr ps) (path_index ps) c0
             (map (\<lambda>v. v\<lparr>target_goal := 0\<rparr>) (filter (matches fl) vs))"
  using assms
proof (induction vs arbitrary: c)
  case Nil
  then show ?case by (simp add: name_of_def)
next
  case (Cons v vs)
  then have vm: "vpath_match v fl = Inr (matches fl v)"
    by (simp add: vpath_match_total)
  have IH: "name_of (nontarget_phase pf en fl ps vs c1)
         = first_success pf en fl (mtime_ptr ps) (path_index ps) c0
             (map (\<lambda>v. v\<lparr>target_goal := 0\<rparr>) (filter (matches fl) vs))" for c1
    using Cons by simp
  show ?case
  proof (cases "matches fl v")
    case False
    with vm IH [of "bump_vpath_index ps c"] show ?thesis
      by (auto simp: name_of_def split: sum.splits prod.splits)
  next
    case True
    show ?thesis
    proof (cases rule: selective_cases [of pf en "v\<lparr>target_goal := 0\<rparr>" fl "mtime_ptr ps" "path_index ps" c])
      case (abort e)
      with vm True show ?thesis by (simp add: name_of_def)
    next
      case (found p x)
      from found(2) [of c0] obtain y where
        "selective_vpath_search pf en (v\<lparr>target_goal := 0\<rparr>) fl (mtime_ptr ps) (path_index ps) c0
          = Inr (Some p, y)" by blast
      with found(1) vm True show ?thesis by (simp add: name_of_def)
    next
      case none
      with vm True IH [of "bump_vpath_index ps c"] show ?thesis
        by (auto simp: name_of_def split: sum.splits prod.splits)
    qed
  qed
qed

lemma nontarget_phase_restores:
  "nontarget_phase pf en fl ps vs c = Inr (r, vs', c') \<Longrightarrow> vs' = vs"
proof (induction vs arbitrary: c r vs' c')
  case Nil
  then show ?case by simp
next
  case (Cons v vs)
  from Cons.prems show ?case
    by (auto simp: Let_def split: sum.splits bool.splits option.splits prod.splits dest: Cons.IH)
qed

lemma bump_mtime [simp]: "mtime_cell (bump_vpath_index ps c) = mtime_cell c"
  by (simp add: bump_vpath_index_def)

lemma reset_mtime [simp]: "mtime_cell (reset_indices ps c) = mtime_cell c"
  by (simp add: reset_indices_def)

lemma nontarget_phase_frame:
  "nontarget_phase pf en fl ps vs c = Inr (None, vs', c') \<Longrightarrow> mtime_cell c' = mtime_cell c"
proof (induction vs arbitrary: c vs' c')
  case Nil
  then show ?case by simp
next
  case (Cons v vs)
  from Cons.prems show ?case
    by (auto simp: Let_def split: sum.splits bool.splits option.splits prod.splits
        dest!: Cons.IH selective_None)
qed

lemma target_phase_frame:
  "target_phase pf en fl ps vs c = Inr (None, c') \<Longrightarrow> mtime_cell c' = mtime_cell c"
proof (induction vs arbitrary: c c')
  case Nil
  then show ?case by simp
next
  case (Cons v vs)
  from Cons.prems show ?case
    by (auto split: sum.splits bool.splits option.splits prod.splits if_splits
        dest!: Cons.IH selective_None)
qed

lemma target_phase_order:
  assumes "\<forall>v \<in> set vs. pattern v \<noteq> []"
  shows "name_of (target_phase pf en fl ps vs c)
         = first_success pf en fl (mtime_ptr ps) (path_index ps) c0
             (filter (\<lambda>v. target_goal v \<noteq> 0 \<and> matches fl v) vs)"
  using assms
proof (induction vs arbitrary: c)
  case Nil
  then show ?case by (simp add: name_of_def)
next
  case (Cons v vs)
  then have vm: "vpath_match v fl = Inr (matches fl v)"
    by (simp add: vpath_match_total)
  have IH: "name_of (target_phase pf en fl ps vs c1)
         = first_success pf en fl (mtime_ptr ps) (path_index ps) c0
             (filter (\<lambda>v. target_goal v \<noteq> 0 \<and> matches fl v) vs)" for c1
    using Cons by simp
  show ?case
  proof (cases "target_goal v \<noteq> 0 \<and> matches fl v")
    case False
    with vm IH [of "bump_vpath_index ps c"] show ?thesis
      by (auto simp: name_of_def split: sum.splits prod.splits)
  next
    case True
    show ?thesis
    proof (cases rule: selective_cases [of pf en v fl "mtime_ptr ps" "path_index ps" c])
      case (abort e)
      with vm True show ?thesis by (simp add: name_of_def)
    next
      case (found p x)
      from found(2) [of c0] obtain y where
        "selective_vpath_search pf en v fl (mtime_ptr ps) (path_index ps) c0
          = Inr (Some p, y)" by blast
      with found(1) vm True show ?thesis by (simp add: name_of_def)
    next
      case none
      with vm True IH [of "bump_vpath_index ps c"] show ?thesis
        by (auto simp: name_of_def split: sum.splits prod.splits)
    qed
  qed
qed

lemma vpath_search_unfold:
  assumes "vpath_index ps \<longrightarrow> path_index ps" and "\<not> nothing_to_do pf g fl"
  shows "vpath_search pf en g fl ps c =
                 (case nontarget_phase pf en fl ps (vpaths g)
                    (reset_indices ps (if target_path ps then c\<lparr>target_path_cell := 0\<rparr> else c)) of
                    Inl e \<Rightarrow> Inl e
                  | Inr (Some p, vs, c2) \<Rightarrow> Inr (Some p, g\<lparr>vpaths := vs\<rparr>, c2)
                  | Inr (None, vs, c2) \<Rightarrow>
                      (let g1 = g\<lparr>vpaths := vs\<rparr>
                       in case target_phase pf en fl ps (vpaths g1) (reset_indices ps c2) of
                            Inl e \<Rightarrow> Inl e
                          | Inr (Some p, c3) \<Rightarrow> Inr (Some p, g1, c3)
                          | Inr (None, c3) \<Rightarrow>
                              (let c4 = reset_indices ps c3
                               in case general_vpath g1 of
                                    None \<Rightarrow> Inr (None, g1, c4)
                                  | Some gv \<Rightarrow>
                                      (case selective_vpath_search pf en gv fl
                                              (mtime_ptr ps) (path_index ps) c4 of
                                         Inl e \<Rightarrow> Inl e
                                       | Inr (Some p, c5) \<Rightarrow>
                                           Inr (Some p, g1, store_target_path ps gv c5)
                                       | Inr (None, c5) \<Rightarrow> Inr (None, g1, c5)))))"
  using assms by (auto simp: vpath_search_def Let_def)

subsection \<open>The three phases of vpath_search\<close>

text \<open>
  Claim C1.  For a call of \<open>vpath_search\<close> that passes the guard (with the asserted
  calling convention that \<open>path_index\<close> is given when \<open>vpath_index\<close> is, and no
  selective list with an empty pattern): what the call returns is what the first
  successful scan returns in the order \<open>search_order\<close>, that is all matching selective
  lists in chain order with their target-goal flag taken as false, then the matching
  lists whose flag is set, in chain order, then the general list; an abort of a scan
  ends the call.  The globals after the call are the globals before it: every flag that
  was cleared for a scan has been restored.
\<close>

theorem vpath_search_order:
  assumes "vpath_index ps \<longrightarrow> path_index ps"
    and "\<not> nothing_to_do pf g fl"
    and "\<forall>v \<in> set (vpaths g). pattern v \<noteq> []"
  shows "name_of (vpath_search pf en g fl ps c)
           = first_success pf en fl (mtime_ptr ps) (path_index ps) c (search_order g fl)
         \<and> (\<forall>r g' c'. vpath_search pf en g fl ps c = Inr (r, g', c') \<longrightarrow> g' = g)"
proof -
  let ?c1 = "reset_indices ps (if target_path ps then c\<lparr>target_path_cell := 0\<rparr> else c)"
  let ?fs = "first_success pf en fl (mtime_ptr ps) (path_index ps) c"
  let ?A = "map (\<lambda>v. v\<lparr>target_goal := 0\<rparr>) (filter (matches fl) (vpaths g))"
  let ?B = "filter (\<lambda>v. target_goal v \<noteq> 0 \<and> matches fl v) (vpaths g)"
  let ?C = "case general_vpath g of None \<Rightarrow> [] | Some gv \<Rightarrow> [gv]"
  have so: "search_order g fl = ?A @ ?B @ ?C" by (simp add: search_order_def)
  note unf = vpath_search_unfold [OF assms(1,2)]
  have A: "name_of (nontarget_phase pf en fl ps (vpaths g) ?c1) = ?fs ?A"
    using assms(3) by (rule nontarget_phase_order)
  have B: "name_of (target_phase pf en fl ps (vpaths g) c2) = ?fs ?B" for c2
    using assms(3) by (rule target_phase_order)
  have C: "name_of (case general_vpath g of
                None \<Rightarrow> Inr (None, g, c4)
              | Some gv \<Rightarrow>
                  (case selective_vpath_search pf en gv fl (mtime_ptr ps) (path_index ps) c4 of
                     Inl e \<Rightarrow> Inl e
                   | Inr (Some p, c5) \<Rightarrow> Inr (Some p, g, store_target_path ps gv c5)
                   | Inr (None, c5) \<Rightarrow> Inr (None, g, c5))) = ?fs ?C" for c4
  proof (cases "general_vpath g")
    case None
    then show ?thesis by (simp add: name_of_def)
  next
    case (Some gv)
    show ?thesis
    proof (cases rule: selective_cases [of pf en gv fl "mtime_ptr ps" "path_index ps" c4])
      case (abort e)
      with Some show ?thesis by (simp add: name_of_def)
    next
      case (found p x)
      from found(2) [of c] obtain y where
        "selective_vpath_search pf en gv fl (mtime_ptr ps) (path_index ps) c = Inr (Some p, y)"
        by blast
      with found(1) Some show ?thesis by (simp add: name_of_def)
    next
      case none
      with Some show ?thesis by (simp add: name_of_def)
    qed
  qed
  show ?thesis
  proof (cases "nontarget_phase pf en fl ps (vpaths g) ?c1")
    case (Inl e)
    with A have "?fs ?A = Inl e" by (simp add: name_of_def)
    with Inl show ?thesis
      by (simp add: unf so first_success_append name_of_def Let_def)
  next
    case (Inr t)
    obtain r vs c2 where t: "t = (r, vs, c2)" by (cases t)
    from Inr t have vs: "vs = vpaths g" by (auto dest: nontarget_phase_restores)
    show ?thesis
    proof (cases r)
      case (Some p)
      with A Inr t have "?fs ?A = Inr (Some p)" by (simp add: name_of_def)
      with Inr t Some vs show ?thesis
        by (simp add: unf so first_success_append name_of_def Let_def)
    next
      case None
      with A Inr t have fa: "?fs ?A = Inr None" by (simp add: name_of_def)
      show ?thesis
      proof (cases "target_phase pf en fl ps (vpaths g) (reset_indices ps c2)")
        case (Inl e)
        with B [of "reset_indices ps c2"] have "?fs ?B = Inl e" by (simp add: name_of_def)
        with Inl Inr t None vs fa show ?thesis
          by (simp add: unf so first_success_append name_of_def Let_def)
      next
        case (Inr u)
        note tp = this
        obtain r2 c3 where u: "u = (r2, c3)" by (cases u)
        show ?thesis
        proof (cases r2)
          case (Some p)
          with B [of "reset_indices ps c2"] tp u have "?fs ?B = Inr (Some p)"
            by (simp add: name_of_def)
          with tp u Some \<open>nontarget_phase pf en fl ps (vpaths g) ?c1 = Inr t\<close> t None vs fa
            show ?thesis
            by (simp add: unf so first_success_append name_of_def Let_def)
        next
          case None
          with B [of "reset_indices ps c2"] tp u have fb: "?fs ?B = Inr None"
            by (simp add: name_of_def)
          from C [of "reset_indices ps c3"]
          show ?thesis
            using tp u None \<open>nontarget_phase pf en fl ps (vpaths g) ?c1 = Inr t\<close> t \<open>r = None\<close>
              vs fa fb
            by (auto simp: unf so first_success_append name_of_def Let_def
                split: option.splits sum.splits prod.splits)
        qed
      qed
    qed
  qed
qed

theorem vpath_search_order_witness:
  "search_order stacked_globals ''foo.o''
     = [\<lparr>pattern = ''%.o'', percent = Some 0, patlen = 3,
          searchpath = [''out''], maxlen = 3, target_goal = 0\<rparr>,
        \<lparr>pattern = ''%.o'', percent = Some 0, patlen = 3,
          searchpath = [''obj''], maxlen = 3, target_goal = 0\<rparr>,
        \<lparr>pattern = ''%.o'', percent = Some 0, patlen = 3,
          searchpath = [''out''], maxlen = 3, target_goal = 1\<rparr>]
   \<and> name_of (vpath_search posix stacked_env stacked_globals ''foo.o'' all_ptrs cells0)
       = first_success posix stacked_env ''foo.o'' True True cells0
           (search_order stacked_globals ''foo.o'')
   \<and> vpath_search posix stacked_env stacked_globals ''foo.o'' all_ptrs cells0
       = Inr (Some ''obj/foo.o'', stacked_globals,
           \<lparr>mtime_cell = 1000, target_path_cell = 0, vpath_index_cell = 1,
            path_index_cell = 0\<rparr>)"
proof -
  have a: "vpath_index all_ptrs \<longrightarrow> path_index all_ptrs"
    by (simp add: all_ptrs_def)
  have b: "\<not> nothing_to_do posix stacked_globals ''foo.o''"
    by (simp add: nothing_to_do_def stacked_globals_def posix_def cchar_def)
  have c: "\<forall>v \<in> set (vpaths stacked_globals). pattern v \<noteq> []"
    by (simp add: stacked_globals_def)
  have d: "search_order stacked_globals ''foo.o''
     = [\<lparr>pattern = ''%.o'', percent = Some 0, patlen = 3,
          searchpath = [''out''], maxlen = 3, target_goal = 0\<rparr>,
        \<lparr>pattern = ''%.o'', percent = Some 0, patlen = 3,
          searchpath = [''obj''], maxlen = 3, target_goal = 0\<rparr>,
        \<lparr>pattern = ''%.o'', percent = Some 0, patlen = 3,
          searchpath = [''out''], maxlen = 3, target_goal = 1\<rparr>]"
    by code_simp
  have e: "vpath_search posix stacked_env stacked_globals ''foo.o'' all_ptrs cells0
       = Inr (Some ''obj/foo.o'', stacked_globals,
           \<lparr>mtime_cell = 1000, target_path_cell = 0, vpath_index_cell = 1,
            path_index_cell = 0\<rparr>)"
    by code_simp
  from vpath_search_order [OF a b c, of stacked_env cells0] d e show ?thesis
    by (simp add: all_ptrs_def)
qed

subsection \<open>The guard of vpath_search\<close>

text \<open>
  Claim C5.  When the file name starts with a slash, or (with DOS paths) starts with a
  backslash or has a colon as its second byte, or when there is neither a selective list
  nor a general list, \<open>vpath_search\<close> returns the null pointer at once: the result does
  not depend on the lists or on the database, the directory cache and the file system,
  the globals are unchanged, and only the cells that the function clears on entry are
  written.  It is a normal return, not an abort (given the asserted calling convention
  that \<open>path_index\<close> is given when \<open>vpath_index\<close> is).
\<close>

theorem vpath_search_guard:
  assumes "vpath_index ps \<longrightarrow> path_index ps"
    and "(\<exists>rest. fl = CHR ''/'' # rest)
         \<or> (have_dos_paths pf \<and>
             ((\<exists>rest. fl = CHR 0x5C # rest) \<or> (\<exists>drive rest. fl = drive # CHR '':'' # rest)))
         \<or> (vpaths g = [] \<and> general_vpath g = None)"
  shows "vpath_search pf en g fl ps c
         = Inr (None, g,
             reset_indices ps (if target_path ps then c\<lparr>target_path_cell := 0\<rparr> else c))"
proof -
  from assms(2) have "nothing_to_do pf g fl"
    by (auto simp: nothing_to_do_def cchar_def)
  moreover from assms(1) have "\<not> (vpath_index ps \<and> \<not> path_index ps)" by simp
  ultimately show ?thesis
    by (simp add: vpath_search_def)
qed

theorem vpath_search_guard_witness:
  "vpath_search posix scenario_env scenario_globals ''/lib/util.c'' all_ptrs cells0
     = Inr (None, scenario_globals,
         \<lparr>mtime_cell = 7, target_path_cell = 0, vpath_index_cell = 0, path_index_cell = 0\<rparr>)"
proof -
  have a: "vpath_index all_ptrs \<longrightarrow> path_index all_ptrs"
    by (simp add: all_ptrs_def)
  have b: "(\<exists>rest. ''/lib/util.c'' = CHR ''/'' # rest)
         \<or> (have_dos_paths posix \<and>
             ((\<exists>rest. ''/lib/util.c'' = CHR 0x5C # rest)
              \<or> (\<exists>drive rest. ''/lib/util.c'' = drive # CHR '':'' # rest)))
         \<or> (vpaths scenario_globals = [] \<and> general_vpath scenario_globals = None)"
    by simp
  from vpath_search_guard [OF a b, of scenario_env cells0] show ?thesis
    by (simp add: all_ptrs_def cells0_def reset_indices_def)
qed

subsection \<open>The timestamp cell on failure\<close>

text \<open>
  Claim C10.  A call of \<open>vpath_search\<close> that returns the null pointer leaves the cell
  behind \<open>mtime_ptr\<close> as it was: a timestamp is stored there only by a call that
  returns a name.
\<close>

theorem vpath_search_mtime_frame:
  assumes "vpath_search pf en g fl ps c = Inr (None, g', c')"
  shows "mtime_cell c' = mtime_cell c"
proof -
  let ?c1 = "reset_indices ps (if target_path ps then c\<lparr>target_path_cell := 0\<rparr> else c)"
  have c1: "mtime_cell ?c1 = mtime_cell c" by simp
  show ?thesis
  proof (cases "nothing_to_do pf g fl")
    case True
    with assms c1 show ?thesis
      by (auto simp: vpath_search_def split: if_splits)
  next
    case False
    with assms obtain vs c2 where
      np: "nontarget_phase pf en fl ps (vpaths g) ?c1 = Inr (None, vs, c2)"
      by (auto simp: vpath_search_def Let_def
          split: if_splits sum.splits prod.splits option.splits)
    from nontarget_phase_frame [OF np] c1 have c2: "mtime_cell c2 = mtime_cell c" by simp
    from assms False np obtain c3 where
      tp: "target_phase pf en fl ps vs (reset_indices ps c2) = Inr (None, c3)"
      by (auto simp: vpath_search_def Let_def
          split: if_splits sum.splits prod.splits option.splits)
    from target_phase_frame [OF tp] c2 have c3: "mtime_cell c3 = mtime_cell c" by simp
    from assms False np tp c3 show ?thesis
      by (auto simp: vpath_search_def Let_def
          split: if_splits sum.splits prod.splits option.splits dest!: selective_None)
  qed
qed

theorem vpath_search_mtime_frame_witness:
  "vpath_search posix scenario_env scenario_globals ''other.c'' all_ptrs cells0
     = Inr (None, scenario_globals,
         \<lparr>mtime_cell = 7, target_path_cell = 0, vpath_index_cell = 0, path_index_cell = 0\<rparr>)
   \<and> mtime_cell \<lparr>mtime_cell = 7, target_path_cell = 0, vpath_index_cell = 0,
                  path_index_cell = 0\<rparr> = mtime_cell cells0"
proof -
  have a: "vpath_search posix scenario_env scenario_globals ''other.c'' all_ptrs cells0
     = Inr (None, scenario_globals,
         \<lparr>mtime_cell = 7, target_path_cell = 0, vpath_index_cell = 0, path_index_cell = 0\<rparr>)"
    by code_simp
  from vpath_search_mtime_frame [OF a] a show ?thesis
    by simp
qed

subsection \<open>Matching a pattern\<close>

lemma dotless_suffix:
  assumes "CHR ''.'' \<notin> set str" and "CHR ''.'' \<in> set sfx"
  shows "sfx \<noteq> drop n str"
  using assms by (metis in_set_dropD)

text \<open>
  Claim C4 (amended).  For a file name without a dot and a pattern that ends in a dot,
  \<open>vpath_match\<close> succeeds exactly when the pattern matches literally or, after that
  failed, when the pattern without its last dot matches.  So the pattern \<open>%.\<close> matches
  every file name without a dot through the fallback, though it does not match it
  literally.  The pattern \<open>%.o.\<close> matches no file name without a dot: without its last
  dot it is \<open>%.o\<close>, whose suffix has a dot of its own.
\<close>

theorem vpath_match_dot_fallback:
  assumes "CHR ''.'' \<notin> set filename"
  shows "(pattern v \<noteq> [] \<and> last (pattern v) = CHR ''.'' \<longrightarrow>
            vpath_match v filename
              = Inr (pattern_matches (pattern v) (percent v) filename
                     \<or> pattern_matches (butlast (pattern v))
                          (find_percent (butlast (pattern v))) filename))
         \<and> \<not> pattern_matches ''%.'' (Some 0) filename
         \<and> vpath_match (v\<lparr>pattern := ''%.'', percent := Some 0, patlen := 2\<rparr>) filename = Inr True
         \<and> vpath_match (v\<lparr>pattern := ''%.o.'', percent := Some 0, patlen := 4\<rparr>) filename = Inr False"
proof -
  have g: "pattern v \<noteq> [] \<and> last (pattern v) = CHR ''.'' \<longrightarrow>
            vpath_match v filename
              = Inr (pattern_matches (pattern v) (percent v) filename
                     \<or> pattern_matches (butlast (pattern v))
                          (find_percent (butlast (pattern v))) filename)"
    using assms by (simp add: vpath_match_def Let_def)
  have n1: "\<not> pattern_matches ''%.'' (Some 0) filename"
    using dotless_suffix [OF assms, of "''.''"] by (simp add: pattern_matches_def Let_def)
  have y1: "pattern_matches ''%'' (find_percent ''%'') filename"
    by (simp add: pattern_matches_def find_percent_def Let_def)
  have n2: "\<not> pattern_matches ''%.o.'' (Some 0) filename"
    using dotless_suffix [OF assms, of "''.o.''"] by (simp add: pattern_matches_def Let_def)
  have n3: "\<not> pattern_matches ''%.o'' (find_percent ''%.o'') filename"
    using dotless_suffix [OF assms, of "''.o''"]
    by (simp add: pattern_matches_def find_percent_def Let_def)
  from g n1 y1 n2 n3 assms show ?thesis
    by (simp add: vpath_match_def Let_def)
qed

theorem vpath_match_dot_fallback_witness:
  "CHR ''.'' \<notin> set ''README''
   \<and> vpath_match \<lparr>pattern = ''%.'', percent = Some 0, patlen = 2, searchpath = [''doc''],
                   maxlen = 3, target_goal = 0\<rparr> ''README'' = Inr True
   \<and> vpath_match \<lparr>pattern = ''%.o.'', percent = Some 0, patlen = 4, searchpath = [''doc''],
                   maxlen = 3, target_goal = 0\<rparr> ''README'' = Inr False"
proof -
  have a: "CHR ''.'' \<notin> set ''README''" by simp
  from vpath_match_dot_fallback [OF a,
      of "\<lparr>pattern = ''%.'', percent = Some 0, patlen = 2, searchpath = [''doc''],
           maxlen = 3, target_goal = 0\<rparr>", THEN conjunct2, THEN conjunct2]
  show ?thesis by simp
qed

text \<open>
  Claim C4 as stated fails: the pattern \<open>%.o.\<close> does not match the file name \<open>foo\<close>,
  which has no dot.
\<close>

theorem dot_o_dot_counterexample:
  "CHR ''.'' \<notin> set ''foo''
   \<and> vpath_match \<lparr>pattern = ''%.o.'', percent = Some 0, patlen = 4, searchpath = [''obj''],
                   maxlen = 3, target_goal = 0\<rparr> ''foo'' = Inr False"
  by code_simp

subsection \<open>The target rule of the scan\<close>

text \<open>
  Claim C3 (amended).  In the body of the scan, for a candidate that the database knows
  and whose file the directory cache does not list, the candidate is accepted (the body
  returns its name) if and only if the searched file is not a declared target or the
  database entry of the candidate is a target; this holds whatever the target-goal flag
  of the list is, that is in the non-target phase and in the target phase.
\<close>

theorem asymmetric_target_rule:
  assumes "lookup_file en (candidate_name pf d fl) = Some e"
    and "\<not> dir_file_exists_p en (candidate_dir pf d fl) (filename_of pf fl)"
  shows "(\<exists>n c'. try_entry pf en is_tgt is_target_path fl pidx i d l c = Found n c')
         \<longleftrightarrow> (\<not> is_tgt \<or> is_target e)"
  using assms
  by (auto simp: try_entry_def found_file_def Let_def split: option.splits if_splits)

theorem asymmetric_target_rule_witness:
  "lookup_file db_only_env (candidate_name posix ''src'' ''foo.o'')
     = Some \<lparr>is_target = False, last_mtime = 0\<rparr>
   \<and> \<not> (\<exists>n c'. try_entry posix db_only_env True 0 ''foo.o'' True 0 ''src'' scan_start cells0
                    = Found n c')
   \<and> \<not> (\<exists>n c'. try_entry posix db_only_env True 1 ''foo.o'' True 0 ''src'' scan_start cells0
                    = Found n c')
   \<and> (\<exists>n c'. try_entry posix db_only_env False 0 ''foo.o'' True 0 ''src'' scan_start cells0
                    = Found n c')"
proof -
  have a: "lookup_file db_only_env (candidate_name posix ''src'' ''foo.o'')
     = Some \<lparr>is_target = False, last_mtime = 0\<rparr>"
    by code_simp
  have b: "\<not> dir_file_exists_p db_only_env (candidate_dir posix ''src'' ''foo.o'')
               (filename_of posix ''foo.o'')"
    by (simp add: db_only_env_def)
  from asymmetric_target_rule [OF a b, of True 0 True 0 scan_start cells0]
    asymmetric_target_rule [OF a b, of True 1 True 0 scan_start cells0]
    asymmetric_target_rule [OF a b, of False 0 True 0 scan_start cells0] a
  show ?thesis by simp
qed

text \<open>
  Claim C3 as stated fails: \<open>foo.o\<close> is a declared target and the database entry of
  the candidate \<open>src/foo.o\<close> is not a target, yet the scan accepts the candidate,
  because the directory cache lists the file and \<open>stat\<close> finds it.
\<close>

theorem asymmetric_target_rule_counterexample:
  "lookup_file on_disk_env ''foo.o'' = Some \<lparr>is_target = True, last_mtime = 0\<rparr>
   \<and> lookup_file on_disk_env (candidate_name posix ''src'' ''foo.o'')
       = Some \<lparr>is_target = False, last_mtime = 0\<rparr>
   \<and> selective_vpath_search posix on_disk_env src_list ''foo.o'' True True cells0
       = Inr (Some ''src/foo.o'',
           \<lparr>mtime_cell = 1000, target_path_cell = 7, vpath_index_cell = 7,
            path_index_cell = 0\<rparr>)"
  by code_simp

subsection \<open>The target-goal fallback\<close>

lemma try_entry_rejected_later:
  assumes "rejected pf en fl d" and "tgt_name l \<noteq> None" and "\<not> l_exists l"
  shows "try_entry pf en (case lookup_file en fl of None \<Rightarrow> False | Some f \<Rightarrow> is_target f)
           tp fl pidx i d l c = Next l c"
  using assms
  by (auto simp: try_entry_def rejected_def Let_def split: option.splits)

lemma entries_loop_rejected_later:
  assumes "\<forall>d \<in> set ds. rejected pf en fl d" and "tgt_name l \<noteq> None" and "\<not> l_exists l"
  shows "entries_loop pf en (case lookup_file en fl of None \<Rightarrow> False | Some f \<Rightarrow> is_target f)
           tp fl pidx i ds l c = Inr (None, l, c)"
  using assms
proof (induction ds arbitrary: i)
  case Nil
  then show ?case by simp
next
  case (Cons d ds)
  then show ?case by (simp add: try_entry_rejected_later)
qed

lemma try_entry_rejected_first:
  assumes "rejected pf en fl d" and "slash_added pf d fl" and "tp \<noteq> 0"
  shows "try_entry pf en (case lookup_file en fl of None \<Rightarrow> False | Some f \<Rightarrow> is_target f)
           tp fl pidx 0 d \<lparr>l_exists = False, l_mtime_ptr = mp, tgt_name = None, tgt_len = 0\<rparr> c
         = Next \<lparr>l_exists = False, l_mtime_ptr = mp,
                 tgt_name = Some (candidate_name pf d fl),
                 tgt_len = length (candidate_name pf d fl)\<rparr> c"
  using assms
  by (auto simp: try_entry_def rejected_def restored_name_def candidate_name_def Let_def
      split: option.splits)

lemma target_goal_fallback_regular:
  assumes "target_goal path \<noteq> 0"
    and "searchpath path = d # ds"
    and "slash_added pf d fl"
    and "\<forall>x \<in> set (searchpath path). rejected pf en fl x"
  shows "selective_vpath_search pf en path fl mp pidx c
         = Inr (Some (candidate_name pf d fl),
             (if pidx then (\<lambda>x. x\<lparr>path_index_cell := 0\<rparr>) else (\<lambda>x. x))
               (if mp then c\<lparr>mtime_cell := UNKNOWN_MTIME en\<rparr> else c))"
proof -
  let ?t = "case lookup_file en fl of None \<Rightarrow> False | Some f \<Rightarrow> is_target f"
  let ?l1 = "\<lparr>l_exists = False, l_mtime_ptr = mp,
                 tgt_name = Some (candidate_name pf d fl),
                 tgt_len = length (candidate_name pf d fl)\<rparr>"
  from assms have r: "rejected pf en fl d" and rs: "\<forall>x \<in> set ds. rejected pf en fl x"
    by simp_all
  have first: "try_entry pf en ?t (target_goal path) fl pidx 0 d
      \<lparr>l_exists = False, l_mtime_ptr = mp, tgt_name = None, tgt_len = 0\<rparr> c = Next ?l1 c"
    using r assms(3,1) by (rule try_entry_rejected_first)
  have rest: "entries_loop pf en ?t (target_goal path) fl pidx (Suc 0) ds ?l1 c
      = Inr (None, ?l1, c)"
    using rs by (rule entries_loop_rejected_later) simp_all
  have len: "0 < length (candidate_name pf d fl)"
    using assms(3) by (simp add: candidate_name_def slash_added_def)
  from first rest len assms(1,2) show ?thesis
    by (simp add: selective_vpath_search_def Let_def)
qed


text \<open>
  The example of the specification: with the directories \<open>/build\<close> and \<open>/alt\<close> the
  search for the target \<open>foo.o\<close>, which exists nowhere, returns \<open>/build/foo.o\<close> with the
  unknown timestamp and the directory index 0.
\<close>

lemma target_goal_fallback_example:
  "vpath_search posix fallback_env fallback_globals ''foo.o'' all_ptrs cells0
     = Inr (Some ''/build/foo.o'', fallback_globals,
         \<lparr>mtime_cell = UNKNOWN_MTIME fallback_env, target_path_cell = 1,
          vpath_index_cell = 0, path_index_cell = 0\<rparr>)"
  by code_simp

text \<open>
  Claim C2.  The fallback holds for a first directory after which the scan writes a slash
  (\<open>target_goal_fallback_regular\<close>), but not for every target-goal list: when the
  first directory is the root \<open>/\<close>, no slash is written before the file name, the
  unconditional \<open>*p = '/'\<close> overwrites the first byte of the file name, and the
  assertion \<open>tgt_len == strlen (name)\<close> of the fallback fails.  The candidate of the
  first directory is \<open>/foo.o\<close>; the buffer holds \<open>//oo.o\<close>, and the search aborts.
\<close>

theorem target_goal_fallback_root_aborts:
  "candidate_name posix ''/'' ''foo.o'' = ''/foo.o''
   \<and> restored_name posix ''/'' ''foo.o'' = ''//oo.o''
   \<and> vpath_search posix fallback_env root_globals ''foo.o'' all_ptrs cells0
       = Inl AssertionFailure"
  by code_simp

subsection \<open>Building and removing lists\<close>

lemma remove_listings_filter:
  "remove_listings pat pct tg vs = filter (\<lambda>q. \<not> same_listing pat pct tg q) vs"
  by (induction vs) auto

lemma same_listing_Some:
  "same_listing (Some pt) (find_percent pt) tg q = same_key pt tg q"
  by (cases "find_percent pt"; cases "percent q") (auto simp: same_listing_def same_key_def)

lemma same_listing_None: "same_listing None None tg q = (target_goal q = tg)"
  by (simp add: same_listing_def)

lemma free_dirpath_valid:
  "(windows32 pf \<longrightarrow> initial_skip pf dp1 = 0) \<Longrightarrow> free_dirpath pf dp1 g = Inr g"
  by (auto simp: free_dirpath_def)

lemma free_dirpath_invalid:
  "windows32 pf \<Longrightarrow> 0 < initial_skip pf dp1 \<Longrightarrow> free_dirpath pf dp1 g = Inl InvalidFree"
  by (simp add: free_dirpath_def)

lemma free_dirpath_Inr: "free_dirpath pf dp1 g = Inr g' \<Longrightarrow> g' = g"
  by (simp add: free_dirpath_def split: if_splits)

text \<open>
  Claim C6 (amended).  When the directory string of a directive yields at least one
  entry (and, in a WINDOWS32 build, its converted form does not begin with a blank or a
  separator, so that the closing \<open>free\<close> is given the pointer that was allocated),
  applying the directive adds one listing at the head of the chain, and applying
  it again adds a second, equal one: both are in the chain, and both stand at the head of
  the search order of a file that the pattern matches.  A directive without a directory string
  removes every listing of the chain with the same pattern, the same wildcard offset and
  the same target category, so both copies go; without a pattern as well it removes every
  listing of the category.  Removal always returns normally, and leaves the chain as it
  was when nothing matches.
\<close>

theorem construct_vpath_list_stacking:
  assumes "canonical_dirpath pf dp = Some dp1"
    and "vp = parse_dirpath pf (dropWhile (blank_or_pathsep pf) dp1)"
    and "vp \<noteq> []"
    and "windows32 pf \<longrightarrow> initial_skip pf dp1 = 0"
  shows "construct_vpath_list pf g (Some pt) (Some dp) tg
           = Inr (g\<lparr>vpaths := built_listing pt vp tg # vpaths g\<rparr>)
         \<and> construct_vpath_list pf (g\<lparr>vpaths := built_listing pt vp tg # vpaths g\<rparr>)
               (Some pt) (Some dp) tg
           = Inr (g\<lparr>vpaths := built_listing pt vp tg # built_listing pt vp tg # vpaths g\<rparr>)
         \<and> construct_vpath_list pf
               (g\<lparr>vpaths := built_listing pt vp tg # built_listing pt vp tg # vpaths g\<rparr>)
               (Some pt) None tg
           = Inr (g\<lparr>vpaths := filter (\<lambda>q. \<not> same_key pt tg q) (vpaths g)\<rparr>)
         \<and> construct_vpath_list pf g (Some pt) None tg
           = Inr (g\<lparr>vpaths := filter (\<lambda>q. \<not> same_key pt tg q) (vpaths g)\<rparr>)
         \<and> construct_vpath_list pf g None None tg
           = Inr (g\<lparr>vpaths := filter (\<lambda>q. target_goal q \<noteq> tg) (vpaths g)\<rparr>)
         \<and> ((\<forall>q \<in> set (vpaths g). \<not> same_key pt tg q) \<longrightarrow>
              construct_vpath_list pf g (Some pt) None tg = Inr g)
         \<and> ((\<forall>q \<in> set (vpaths g). target_goal q \<noteq> tg) \<longrightarrow>
              construct_vpath_list pf g None None tg = Inr g)
         \<and> (matches fl (built_listing pt vp tg) \<longrightarrow>
              (\<exists>rest. search_order
                        (g\<lparr>vpaths := built_listing pt vp tg # built_listing pt vp tg
                                       # vpaths g\<rparr>) fl
                     = (built_listing pt vp tg)\<lparr>target_goal := 0\<rparr>
                       # (built_listing pt vp tg)\<lparr>target_goal := 0\<rparr> # rest))"
proof -
  have add: "construct_vpath_list pf h (Some pt) (Some dp) tg
           = Inr (h\<lparr>vpaths := built_listing pt vp tg # vpaths h\<rparr>)" for h
    using assms by (simp add: construct_vpath_list_def built_listing_def Let_def free_dirpath_valid)
  have del: "construct_vpath_list pf h (Some pt) None tg
           = Inr (h\<lparr>vpaths := filter (\<lambda>q. \<not> same_key pt tg q) (vpaths h)\<rparr>)" for h
    by (simp add: construct_vpath_list_def remove_listings_filter same_listing_Some)
  have delall: "construct_vpath_list pf h None None tg
           = Inr (h\<lparr>vpaths := filter (\<lambda>q. target_goal q \<noteq> tg) (vpaths h)\<rparr>)" for h
    by (simp add: construct_vpath_list_def remove_listings_filter same_listing_None)
  have key: "same_key pt tg (built_listing pt vp tg)"
    by (simp add: same_key_def built_listing_def)
  have id1: "(\<forall>q \<in> set (vpaths g). \<not> same_key pt tg q) \<longrightarrow>
      filter (\<lambda>q. \<not> same_key pt tg q) (vpaths g) = vpaths g"
    by (simp add: filter_id_conv)
  have id2: "(\<forall>q \<in> set (vpaths g). target_goal q \<noteq> tg) \<longrightarrow>
      filter (\<lambda>q. target_goal q \<noteq> tg) (vpaths g) = vpaths g"
    by (simp add: filter_id_conv)
  have both: "matches fl (built_listing pt vp tg) \<longrightarrow>
              (\<exists>rest. search_order
                        (g\<lparr>vpaths := built_listing pt vp tg # built_listing pt vp tg
                                       # vpaths g\<rparr>) fl
                     = (built_listing pt vp tg)\<lparr>target_goal := 0\<rparr>
                       # (built_listing pt vp tg)\<lparr>target_goal := 0\<rparr> # rest)"
    by (simp add: search_order_def)
  have stack: "construct_vpath_list pf g (Some pt) (Some dp) tg
           = Inr (g\<lparr>vpaths := built_listing pt vp tg # vpaths g\<rparr>)
         \<and> construct_vpath_list pf (g\<lparr>vpaths := built_listing pt vp tg # vpaths g\<rparr>)
               (Some pt) (Some dp) tg
           = Inr (g\<lparr>vpaths := built_listing pt vp tg # built_listing pt vp tg # vpaths g\<rparr>)
         \<and> construct_vpath_list pf
               (g\<lparr>vpaths := built_listing pt vp tg # built_listing pt vp tg # vpaths g\<rparr>)
               (Some pt) None tg
           = Inr (g\<lparr>vpaths := filter (\<lambda>q. \<not> same_key pt tg q) (vpaths g)\<rparr>)"
    using add [of g] add [of "g\<lparr>vpaths := built_listing pt vp tg # vpaths g\<rparr>"]
      del [of "g\<lparr>vpaths := built_listing pt vp tg # built_listing pt vp tg # vpaths g\<rparr>"]
      key
    by simp
  have none: "((\<forall>q \<in> set (vpaths g). \<not> same_key pt tg q) \<longrightarrow>
              construct_vpath_list pf g (Some pt) None tg = Inr g)
         \<and> ((\<forall>q \<in> set (vpaths g). target_goal q \<noteq> tg) \<longrightarrow>
              construct_vpath_list pf g None None tg = Inr g)"
    using del [of g] delall [of g] id1 id2 by simp
  from stack del [of g] delall [of g] none both show ?thesis
    by blast
qed

theorem construct_vpath_list_stacking_witness:
  "construct_vpath_list posix \<lparr>vpaths = [], general_vpath = None, gpaths = None\<rparr>
       (Some ''%.c'') (Some ''src:lib'') 0
     = Inr \<lparr>vpaths = [built_listing ''%.c'' [''src'', ''lib''] 0],
            general_vpath = None, gpaths = None\<rparr>
   \<and> construct_vpath_list posix
       \<lparr>vpaths = [built_listing ''%.c'' [''src'', ''lib''] 0],
        general_vpath = None, gpaths = None\<rparr>
       (Some ''%.c'') (Some ''src:lib'') 0
     = Inr \<lparr>vpaths = [built_listing ''%.c'' [''src'', ''lib''] 0,
                      built_listing ''%.c'' [''src'', ''lib''] 0],
            general_vpath = None, gpaths = None\<rparr>
   \<and> construct_vpath_list posix
       \<lparr>vpaths = [built_listing ''%.c'' [''src'', ''lib''] 0,
                  built_listing ''%.c'' [''src'', ''lib''] 0],
        general_vpath = None, gpaths = None\<rparr>
       (Some ''%.c'') None 0
     = Inr \<lparr>vpaths = [], general_vpath = None, gpaths = None\<rparr>
   \<and> construct_vpath_list w32 \<lparr>vpaths = [], general_vpath = None, gpaths = None\<rparr>
       (Some ''%.c'') (Some (''src;'' @ CHR 0x22 # ''my dir'' @ [CHR 0x22])) 0
     = Inr \<lparr>vpaths = [built_listing ''%.c'' [''src'', ''my'' @ CHR 0x5C # '' dir''] 0],
            general_vpath = None, gpaths = None\<rparr>
   \<and> construct_vpath_list w32
       \<lparr>vpaths = [built_listing ''%.c'' [''src'', ''my'' @ CHR 0x5C # '' dir''] 0],
        general_vpath = None, gpaths = None\<rparr>
       (Some ''%.c'') (Some (''src;'' @ CHR 0x22 # ''my dir'' @ [CHR 0x22])) 0
     = Inr \<lparr>vpaths = [built_listing ''%.c'' [''src'', ''my'' @ CHR 0x5C # '' dir''] 0,
                      built_listing ''%.c'' [''src'', ''my'' @ CHR 0x5C # '' dir''] 0],
            general_vpath = None, gpaths = None\<rparr>"
proof -
  have a: "canonical_dirpath posix ''src:lib'' = Some ''src:lib''"
    by (simp add: canonical_dirpath_def posix_def)
  have b: "[''src'', ''lib'']
      = parse_dirpath posix (dropWhile (blank_or_pathsep posix) ''src:lib'')"
    by code_simp
  have c: "[''src'', ''lib''] \<noteq> []" by simp
  have d: "windows32 posix \<longrightarrow> initial_skip posix ''src:lib'' = 0"
    by (simp add: posix_def)
  note th = construct_vpath_list_stacking [OF a b c d,
      of "\<lparr>vpaths = [], general_vpath = None, gpaths = None\<rparr>" "''%.c''" 0]
  have a': "canonical_dirpath w32 (''src;'' @ CHR 0x22 # ''my dir'' @ [CHR 0x22])
      = Some (''src my'' @ CHR 0x5C # '' dir'')"
    by code_simp
  have b': "[''src'', ''my'' @ CHR 0x5C # '' dir'']
      = parse_dirpath w32 (dropWhile (blank_or_pathsep w32) (''src my'' @ CHR 0x5C # '' dir''))"
    by code_simp
  have c': "[''src'', ''my'' @ CHR 0x5C # '' dir''] \<noteq> []" by simp
  have d': "windows32 w32 \<longrightarrow> initial_skip w32 (''src my'' @ CHR 0x5C # '' dir'') = 0"
    by code_simp
  note th' = construct_vpath_list_stacking [OF a' b' c' d',
      of "\<lparr>vpaths = [], general_vpath = None, gpaths = None\<rparr>" "''%.c''" 0]
  from th [THEN conjunct1] th [THEN conjunct2, THEN conjunct1]
    th [THEN conjunct2, THEN conjunct2, THEN conjunct1]
    th' [THEN conjunct1] th' [THEN conjunct2, THEN conjunct1]
  show ?thesis by simp
qed


text \<open>
  Claim C6 as stated fails for a directory string that is not empty but yields no entry:
  the directive with the directory string \<open>.\<close> adds no listing, however often it is
  applied.
\<close>

theorem construct_vpath_list_dot_counterexample:
  "construct_vpath_list posix \<lparr>vpaths = [], general_vpath = None, gpaths = None\<rparr>
       (Some ''%.c'') (Some ''.'') 0
     = Inr \<lparr>vpaths = [], general_vpath = None, gpaths = None\<rparr>"
  by code_simp


subsection \<open>What the builder establishes\<close>

text \<open>
  The \<open>maxlen\<close> of a listing that \<open>construct_vpath_list\<close> builds bounds its
  directories; \<open>build_vpath_lists\<close> reverses the chain, so that a listing declared
  later stands later in the chain that \<open>vpath_search\<close> scans, and stores in \<open>gpaths\<close>
  nothing but such a listing.
\<close>

lemma fold_max_ge:
  "m \<le> fold (\<lambda>e m. if m < length e then length e else m) es m"
proof (induction es arbitrary: m)
  case Nil
  then show ?case by simp
next
  case (Cons e es)
  have "(if m < length e then length e else m)
      \<le> fold (\<lambda>e m. if m < length e then length e else m) es
           (if m < length e then length e else m)"
    by (rule Cons.IH)
  then show ?case by (simp split: if_splits)
qed

lemma fold_max_bounds:
  "e \<in> set es \<Longrightarrow> length e \<le> fold (\<lambda>e m. if m < length e then length e else m) es m"
proof (induction es arbitrary: m)
  case Nil
  then show ?case by simp
next
  case (Cons x es)
  show ?case
  proof (cases "e = x")
    case True
    have "(if m < length x then length x else m)
        \<le> fold (\<lambda>e m. if m < length e then length e else m) es
             (if m < length x then length x else m)"
      by (rule fold_max_ge)
    with True show ?thesis by (simp split: if_splits)
  next
    case False
    with Cons.prems have "e \<in> set es" by simp
    then show ?thesis by (simp add: Cons.IH)
  qed
qed

lemma built_listing_maxlen: "maxlen_bounds (built_listing pt vp tg)"
  by (simp add: maxlen_bounds_def built_listing_def maxvpath_of_def fold_max_bounds)

lemma construct_vpath_list_result:
  assumes "construct_vpath_list pf g pat dirpath tg = Inr g'"
  shows "general_vpath g' = general_vpath g \<and> gpaths g' = gpaths g
         \<and> (vpaths g' = remove_listings pat (case pat of None \<Rightarrow> None | Some pt \<Rightarrow> find_percent pt)
                           tg (vpaths g)
             \<or> vpaths g' = vpaths g
             \<or> (\<exists>pt vp. vp \<noteq> [] \<and> vpaths g' = built_listing pt vp tg # vpaths g))"
  using assms
  by (auto simp: construct_vpath_list_def built_listing_def Let_def
      split: option.splits if_splits dest!: free_dirpath_Inr)

lemma chain_head_maxlen:
  assumes "construct_vpath_list pf (g\<lparr>vpaths := []\<rparr>) pat dirpath tg = Inr h"
    and "chain_head (vpaths h) = Some gp"
  shows "maxlen_bounds gp"
proof -
  from construct_vpath_list_result [OF assms(1)]
  have "vpaths h = [] \<or> (\<exists>pt vp. vpaths h = [built_listing pt vp tg])"
    by auto
  with assms(2) show ?thesis
    by (auto simp: chain_head_def built_listing_maxlen)
qed

lemma build_vpath_lists_chain:
  assumes "build_vpath_lists pf g VPATH GPATH = Inr g'"
  shows "vpaths g' = rev (vpaths g)"
  using assms
  by (auto simp: build_vpath_lists_def Let_def split: if_splits sum.splits)

lemma build_vpath_lists_gpaths:
  assumes "build_vpath_lists pf g VPATH GPATH = Inr g'"
    and "\<forall>gp. gpaths g = Some gp \<longrightarrow> maxlen_bounds gp"
  shows "\<forall>gp. gpaths g' = Some gp \<longrightarrow> maxlen_bounds gp"
proof (cases "GPATH = []")
  case True
  with assms show ?thesis
    by (auto simp: build_vpath_lists_def Let_def split: if_splits sum.splits
        dest!: construct_vpath_list_result)
next
  case False
  with assms(1) obtain g2 h where
    "construct_vpath_list pf (g2\<lparr>vpaths := []\<rparr>) (Some ''%'') (Some GPATH) 0 = Inr h"
    and "gpaths g' = chain_head (vpaths h)"
    by (auto simp: build_vpath_lists_def Let_def split: if_splits sum.splits)
  then show ?thesis by (auto dest: chain_head_maxlen)
qed

lemma later_directive_scanned_later:
  assumes "construct_vpath_list pf g (Some pt) (Some dp) tg = Inr g1"
    and "build_vpath_lists pf g1 VPATH GPATH = Inr g2"
  shows "vpaths g2 = rev (vpaths g)
         \<or> (\<exists>vp. vpaths g2 = rev (vpaths g) @ [built_listing pt vp tg])"
proof -
  from assms(1) have "vpaths g1 = vpaths g \<or> (\<exists>vp. vpaths g1 = built_listing pt vp tg # vpaths g)"
    by (auto simp: construct_vpath_list_def built_listing_def Let_def
        split: option.splits if_splits dest!: free_dirpath_Inr)
  with build_vpath_lists_chain [OF assms(2)] show ?thesis by auto
qed

subsection \<open>The entries of a directory path\<close>

lemma entry_end_pos:
  assumes "\<not> blank_or_pathsep pf c"
  shows "0 < entry_end pf False 0 (c # cs)"
proof -
  from assms have "entry_end pf False 0 (c # cs)
      = entry_end pf (if c = CHR 0x5C then True else False) (Suc 0) cs"
    by (simp add: blank_or_pathsep_def)
  moreover have "Suc 0 \<le> entry_end pf (if c = CHR 0x5C then True else False) (Suc 0) cs"
    by (rule entry_end_ge)
  ultimately show ?thesis by simp
qed

lemma strip_condition_posix:
  assumes "raw \<noteq> []"
  shows "(1 < length raw \<and> last raw = CHR ''/'')
         \<longleftrightarrow> (last raw = CHR ''/'' \<and> raw \<noteq> ''/'')"
proof (cases raw)
  case Nil
  with assms show ?thesis by simp
next
  case (Cons x r1)
  then show ?thesis by (cases r1) auto
qed

lemma strip_condition_dos:
  assumes "raw \<noteq> []"
  shows "((3 < length raw \<or> (1 < length raw \<and> raw ! 1 \<noteq> CHR '':''))
          \<and> (last raw = CHR ''/'' \<or> last raw = CHR 0x5C))
         \<longleftrightarrow> ((last raw = CHR ''/'' \<or> last raw = CHR 0x5C)
              \<and> \<not> (raw = ''/'' \<or> raw = [CHR 0x5C]
                     \<or> (length raw = 3 \<and> raw ! 1 = CHR '':'')))"
proof (cases raw)
  case Nil
  with assms show ?thesis by simp
next
  case c1: (Cons x r1)
  show ?thesis
  proof (cases r1)
    case Nil
    with c1 show ?thesis by auto
  next
    case c2: (Cons y r2)
    show ?thesis
    proof (cases r2)
      case Nil
      with c1 c2 show ?thesis by auto
    next
      case c3: (Cons z r3)
      with c1 c2 show ?thesis by (cases r3) auto
    qed
  qed
qed

lemma strip_trailing_slash_spec:
  assumes "0 < n" and "n \<le> length p"
  shows "take (strip_trailing_slash pf p n) p = one_slash_stripped pf (take n p)"
proof -
  have ne: "take n p \<noteq> []" using assms by auto
  then have "last (take n p) = take n p ! (length (take n p) - 1)"
    by (rule last_conv_nth)
  with assms have last: "last (take n p) = p ! (n - 1)"
    by simp
  from assms have "n - 1 < length p" by arith
  then have c: "cchar p (n - Suc 0) = last (take n p)"
    by (simp add: cchar_def last)
  have c1: "1 < n \<Longrightarrow> cchar p (Suc 0) = take n p ! 1"
    using assms by (simp add: cchar_def)
  have bl: "take (n - Suc 0) p = butlast (take n p)"
    using assms by (simp add: butlast_take)
  have len: "length (take n p) = n" using assms by simp
  show ?thesis
  proof (cases "have_dos_paths pf")
    case False
    have "strip_trailing_slash pf p n
        = (if 1 < n \<and> last (take n p) = CHR ''/'' then n - 1 else n)"
      using False by (simp add: strip_trailing_slash_def c del: length_take)
    also have "\<dots> = (if last (take n p) = CHR ''/'' \<and> take n p \<noteq> ''/'' then n - 1 else n)"
      using strip_condition_posix [OF ne] unfolding len by simp
    finally have "strip_trailing_slash pf p n
        = (if last (take n p) = CHR ''/'' \<and> take n p \<noteq> ''/'' then n - 1 else n)" .
    then show ?thesis
      using False ne
      by (simp add: one_slash_stripped_def ends_in_slash_def is_root_or_drive_def bl
          del: length_take)
  next
    case True
    have "strip_trailing_slash pf p n
        = (if (3 < n \<or> (1 < n \<and> take n p ! 1 \<noteq> CHR '':''))
              \<and> (last (take n p) = CHR ''/'' \<or> last (take n p) = CHR 0x5C)
           then n - 1 else n)"
      using True c1 by (auto simp: strip_trailing_slash_def c simp del: length_take)
    also have "\<dots> = (if (last (take n p) = CHR ''/'' \<or> last (take n p) = CHR 0x5C)
              \<and> \<not> (take n p = ''/'' \<or> take n p = [CHR 0x5C]
                     \<or> (n = 3 \<and> take n p ! 1 = CHR '':''))
           then n - 1 else n)"
      using strip_condition_dos [OF ne] unfolding len by simp
    finally have "strip_trailing_slash pf p n
        = (if (last (take n p) = CHR ''/'' \<or> last (take n p) = CHR 0x5C)
              \<and> \<not> (take n p = ''/'' \<or> take n p = [CHR 0x5C]
                     \<or> (n = 3 \<and> take n p ! 1 = CHR '':''))
           then n - 1 else n)" .
    then show ?thesis
      using True ne
      by (simp add: one_slash_stripped_def ends_in_slash_def is_root_or_drive_def bl len
          del: length_take)
  qed
qed

lemma strip_trailing_slash_bounds:
  assumes "0 < n"
  shows "0 < strip_trailing_slash pf p n \<and> strip_trailing_slash pf p n \<le> n"
  using assms by (auto simp: strip_trailing_slash_def)

lemma kept_iff_not_dot:
  assumes "0 < m" and "m \<le> length p"
  shows "(1 < m \<or> cchar p 0 \<noteq> CHR ''.'') \<longleftrightarrow> take m p \<noteq> ''.''"
proof (cases p)
  case Nil
  with assms show ?thesis by simp
next
  case (Cons x xs)
  show ?thesis
  proof (cases m)
    case 0
    with assms show ?thesis by simp
  next
    case (Suc k)
    with Cons assms show ?thesis
      by (cases k; cases xs) (auto simp: cchar_def)
  qed
qed

lemma starts_entry_dropWhile: "starts_entry pf (dropWhile (blank_or_pathsep pf) s)"
proof (cases "dropWhile (blank_or_pathsep pf) s")
  case Nil
  show ?thesis unfolding starts_entry_def Nil by simp
next
  case (Cons c cs)
  then have "\<not> blank_or_pathsep pf c"
    by (metis hd_dropWhile list.distinct(1) list.sel(1))
  then show ?thesis unfolding starts_entry_def Cons by simp
qed

lemma parse_dirpath_spec:
  assumes "starts_entry pf p"
  shows "parse_dirpath pf p
         = filter (\<lambda>e. e \<noteq> ''.'') (map (one_slash_stripped pf) (raw_entries pf p))
         \<and> [] \<notin> set (parse_dirpath pf p)"
  using assms
proof (induction pf p rule: parse_dirpath.induct)
  case (1 pf p)
  show ?case
  proof (cases "p = []")
    case True
    then show ?thesis by (simp add: parse_dirpath.simps raw_entries.simps)
  next
    case False
    then obtain c cs where p: "p = c # cs" by (cases p) auto
    let ?n = "entry_end pf False 0 p"
    let ?m = "strip_trailing_slash pf p ?n"
    let ?rest = "dropWhile (blank_or_pathsep pf) (drop ?n p)"
    from "1.prems" p have "\<not> blank_or_pathsep pf c" by (simp add: starts_entry_def)
    then have n0: "0 < ?n" unfolding p by (rule entry_end_pos)
    have nle: "?n \<le> length p" using entry_end_le [of pf False 0 p] by simp
    from strip_trailing_slash_bounds [OF n0] have m: "0 < ?m" "?m \<le> ?n" by auto
    with nle have mle: "?m \<le> length p" by simp
    have e: "take ?m p = one_slash_stripped pf (take ?n p)"
      using n0 nle by (rule strip_trailing_slash_spec)
    have k: "(1 < ?m \<or> cchar p 0 \<noteq> CHR ''.'') \<longleftrightarrow> take ?m p \<noteq> ''.''"
      using m(1) mle by (rule kept_iff_not_dot)
    have nonempty: "take ?m p \<noteq> []" using m(1) False by auto
    have IH: "parse_dirpath pf ?rest
         = filter (\<lambda>e. e \<noteq> ''.'') (map (one_slash_stripped pf) (raw_entries pf ?rest))
         \<and> [] \<notin> set (parse_dirpath pf ?rest)"
      using "1.IH" [OF False refl] starts_entry_dropWhile by blast
    have unfold_p: "parse_dirpath pf p
        = (if 1 < ?m \<or> cchar p 0 \<noteq> CHR ''.'' then [take ?m p] else []) @ parse_dirpath pf ?rest"
      using False by (subst parse_dirpath.simps) (simp add: Let_def)
    have unfold_r: "raw_entries pf p = take ?n p # raw_entries pf ?rest"
      using False by (subst raw_entries.simps) simp
    from IH have i1: "parse_dirpath pf ?rest
         = filter (\<lambda>e. e \<noteq> ''.'') (map (one_slash_stripped pf) (raw_entries pf ?rest))"
      and i2: "[] \<notin> set (parse_dirpath pf ?rest)" by blast+
    show ?thesis
    proof (cases "take ?m p = ''.''")
      case True
      with k have "\<not> (1 < ?m \<or> cchar p 0 \<noteq> CHR ''.'')" by simp
      then have A: "parse_dirpath pf p = parse_dirpath pf ?rest"
        using unfold_p by simp
      have B: "filter (\<lambda>e. e \<noteq> ''.'') (map (one_slash_stripped pf) (raw_entries pf p))
          = filter (\<lambda>e. e \<noteq> ''.'') (map (one_slash_stripped pf) (raw_entries pf ?rest))"
        unfolding unfold_r using True e by simp
      have "parse_dirpath pf p
          = filter (\<lambda>e. e \<noteq> ''.'') (map (one_slash_stripped pf) (raw_entries pf p))"
        unfolding A B by (rule i1)
      moreover have "[] \<notin> set (parse_dirpath pf p)"
        unfolding A by (rule i2)
      ultimately show ?thesis by (rule conjI)
    next
      case False
      with k have "1 < ?m \<or> cchar p 0 \<noteq> CHR ''.''" by simp
      then have A: "parse_dirpath pf p = take ?m p # parse_dirpath pf ?rest"
        using unfold_p by simp
      have B: "filter (\<lambda>e. e \<noteq> ''.'') (map (one_slash_stripped pf) (raw_entries pf p))
          = take ?m p
            # filter (\<lambda>e. e \<noteq> ''.'') (map (one_slash_stripped pf) (raw_entries pf ?rest))"
        unfolding unfold_r using False e by simp
      have "parse_dirpath pf p
          = filter (\<lambda>e. e \<noteq> ''.'') (map (one_slash_stripped pf) (raw_entries pf p))"
        unfolding A B using i1 by (rule arg_cong)
      moreover have "[] \<notin> set (parse_dirpath pf p)"
        unfolding A using i2 nonempty by simp
      ultimately show ?thesis by (rule conjI)
    qed
  qed
qed

text \<open>
  The entries that the builder keeps are the entries of the directory string,
  each with one trailing slash taken off unless it is the root or a bare drive prefix,
  without those that are then equal to \<open>.\<close>; none of them is empty, so the root \<open>/\<close>
  (and \<open>C:/\<close> with DOS paths) is never reduced to the empty string.
\<close>

lemma parse_dirpath_entries:
  "parse_dirpath pf (dropWhile (blank_or_pathsep pf) dp1)
     = filter (\<lambda>e. e \<noteq> ''.'')
         (map (one_slash_stripped pf)
            (raw_entries pf (dropWhile (blank_or_pathsep pf) dp1)))
   \<and> [] \<notin> set (parse_dirpath pf (dropWhile (blank_or_pathsep pf) dp1))"
  using starts_entry_dropWhile by (rule parse_dirpath_spec)

lemma one_slash_stripped_examples:
  "one_slash_stripped pf ''/'' = ''/''
   \<and> one_slash_stripped pf ''a/'' = ''a''
   \<and> one_slash_stripped pf ''a//'' = ''a/''
   \<and> (have_dos_paths pf \<longrightarrow> one_slash_stripped pf ''C:/'' = ''C:/'')"
  by (simp add: one_slash_stripped_def is_root_or_drive_def ends_in_slash_def)

lemma parse_dirpath_example:
  "raw_entries posix (dropWhile (blank_or_pathsep posix) '' src/:.:/:lib//:./'')
     = [''src/'', ''.'', ''/'', ''lib//'', ''./'']
   \<and> parse_dirpath posix (dropWhile (blank_or_pathsep posix) '' src/:.:/:lib//:./'')
     = [''src'', ''/'', ''lib/'']"
  by code_simp

text \<open>
  What the call does with these entries: the listing it links holds exactly the
  canonical entries, nothing is linked when there is none, and the closing
  \<open>free (dirpath)\<close> decides whether the call returns.
\<close>

lemma construct_vpath_list_stores:
  assumes "canonical_dirpath pf dp = Some dp1"
    and "es = filter (\<lambda>e. e \<noteq> ''.'')
                (map (one_slash_stripped pf)
                   (raw_entries pf (dropWhile (blank_or_pathsep pf) dp1)))"
  shows "construct_vpath_list pf g (Some pt) (Some dp) tg
         = free_dirpath pf dp1
             (if es = [] then g else g\<lparr>vpaths := built_listing pt es tg # vpaths g\<rparr>)"
proof -
  have "parse_dirpath pf (dropWhile (blank_or_pathsep pf) dp1) = es"
    using parse_dirpath_entries [of pf dp1] assms(2) by simp
  with assms(1) show ?thesis
    by (simp add: construct_vpath_list_def built_listing_def Let_def)
qed

lemma construct_vpath_list_no_entry:
  assumes "case canonical_dirpath pf dp of
             None \<Rightarrow> True
           | Some dp1 \<Rightarrow> parse_dirpath pf (dropWhile (blank_or_pathsep pf) dp1) = []
                          \<and> (windows32 pf \<longrightarrow> initial_skip pf dp1 = 0)"
  shows "construct_vpath_list pf g pat (Some dp) tg = Inr g"
  using assms
  by (auto simp: construct_vpath_list_def Let_def free_dirpath_valid split: option.splits)

lemma construct_vpath_list_invalid_free:
  assumes "windows32 pf"
    and "canonical_dirpath pf dp = Some dp1"
    and "0 < initial_skip pf dp1"
  shows "construct_vpath_list pf g (Some pt) (Some dp) tg = Inl InvalidFree"
  using assms
  by (simp add: construct_vpath_list_def Let_def free_dirpath_invalid)

lemma construct_vpath_list_no_entry_examples:
  "construct_vpath_list posix scenario_globals (Some ''%.h'') (Some ''.:./'') 0
     = Inr scenario_globals
   \<and> construct_vpath_list posix scenario_globals (Some ''%.h'') (Some '':.'') 0
     = Inr scenario_globals
   \<and> construct_vpath_list w32 scenario_globals (Some ''%.h'') (Some ''.;./'') 0
     = Inr scenario_globals"
  by code_simp

text \<open>
  The same \<open>free\<close> is reached after a listing was linked: in a WINDOWS32 build the
  directive with the directory string \<open>;src\<close> does not return either.
\<close>

lemma construct_vpath_list_leading_delimiter:
  "convert_vpath_from_windows32 '';src'' CHR '';'' = Some '' src''
   \<and> parse_dirpath w32 (dropWhile (blank_or_pathsep w32) '' src'') = [''src'']
   \<and> construct_vpath_list w32 \<lparr>vpaths = [], general_vpath = None, gpaths = None\<rparr>
        (Some ''%.c'') (Some '';src'') 0
      = Inl InvalidFree"
  by code_simp

text \<open>
  Claim C7.  The claim ends: when zero entries survive, no listing is created and the
  directive is a no-op rather than a failure.  The code means this (it frees the array
  and falls through to the end), and it holds wherever the directory path is not freed
  or is freed through the pointer that was allocated.  In a WINDOWS32 build the
  directive with the directory string \<open>;.\<close> keeps no entry and still does not return:
  the converted string is a blank followed by \<open>.\<close>, the skipping loop advances
  \<open>dirpath\<close> by one byte, and the closing \<open>free (dirpath)\<close> is given the advanced
  pointer.
\<close>

theorem construct_vpath_list_no_entry_invalid_free:
  "convert_vpath_from_windows32 '';.'' CHR '';'' = Some '' .''
   \<and> initial_skip w32 '' .'' = 1
   \<and> raw_entries w32 (dropWhile (blank_or_pathsep w32) '' .'') = [''.'']
   \<and> parse_dirpath w32 (dropWhile (blank_or_pathsep w32) '' .'') = []
   \<and> construct_vpath_list w32 \<lparr>vpaths = [], general_vpath = None, gpaths = None\<rparr>
        (Some ''%.c'') (Some '';.'') 0
      = Inl InvalidFree"
  by code_simp


subsection \<open>The round trip of the path conversions\<close>

lemma escape_blanks_simps [simp]:
  "escape_blanks [] = []"
  "escape_blanks (c # cs) = (if c = CHR '' '' then [CHR 0x5C, CHR '' ''] else [c]) @ escape_blanks cs"
  by (simp_all add: escape_blanks_def)

lemma no_escaped_blank_tl: "no_escaped_blank (c # cs) \<Longrightarrow> no_escaped_blank cs"
  by (cases cs) auto

lemma no_escaped_blank_hd:
  "no_escaped_blank (CHR 0x5C # cs) \<Longrightarrow> cs = [] \<or> hd cs \<noteq> CHR '' ''"
  by (cases cs) auto

lemma from_loop_dir:
  assumes "CHR 0x22 \<notin> set d" and "delim \<notin> set d" and "CHR 0x09 \<notin> set d"
    and "no_escaped_blank d" and "e \<longrightarrow> d = [] \<or> hd d \<noteq> CHR '' ''"
  shows "from_windows32_loop delim True (d @ rest) False e tgt
         = from_windows32_loop delim True rest False (esc_after e d) (tgt @ escape_blanks d)"
  using assms
proof (induction d arbitrary: e tgt)
  case Nil
  then show ?case by simp
next
  case (Cons c d)
  from Cons.prems have nq: "c \<noteq> CHR 0x22" and nd: "c \<noteq> delim" and nt: "c \<noteq> CHR 0x09"
    by auto
  from Cons.prems have tl: "CHR 0x22 \<notin> set d" "delim \<notin> set d" "CHR 0x09 \<notin> set d"
    "no_escaped_blank d"
    by (auto dest: no_escaped_blank_tl)
  show ?case
  proof (cases "c = CHR '' ''")
    case True
    with Cons.prems have ne: "\<not> e" by simp
    have "from_windows32_loop delim True ((c # d) @ rest) False e tgt
        = from_windows32_loop delim True (d @ rest) False False (tgt @ [CHR 0x5C, CHR '' ''])"
      using True ne by (simp add: ISBLANK_def)
    also have "\<dots> = from_windows32_loop delim True rest False (esc_after False d)
        ((tgt @ [CHR 0x5C, CHR '' '']) @ escape_blanks d)"
      using tl by (intro Cons.IH) simp_all
    finally show ?thesis using True by simp
  next
    case False
    let ?e = "if c = CHR 0x5C then \<not> e else False"
    have e': "?e \<longrightarrow> d = [] \<or> hd d \<noteq> CHR '' ''"
      using Cons.prems(4) by (auto dest: no_escaped_blank_hd)
    have "from_windows32_loop delim True ((c # d) @ rest) False e tgt
        = from_windows32_loop delim True (d @ rest) False ?e (tgt @ [c])"
      using False nq nd nt by (simp add: ISBLANK_def)
    also have "\<dots> = from_windows32_loop delim True rest False (esc_after ?e d)
        ((tgt @ [c]) @ escape_blanks d)"
      using tl e' by (intro Cons.IH)
    finally show ?thesis using False by simp
  qed
qed

lemma hd_escape_blanks:
  "d \<noteq> [] \<Longrightarrow> hd d \<noteq> CHR '' '' \<Longrightarrow> hd (escape_blanks d) = hd d"
  by (cases d) auto

lemma escape_blanks_empty [simp]: "escape_blanks d = [] \<longleftrightarrow> d = []"
  by (cases d) auto

lemma last_escape_blanks:
  "d \<noteq> [] \<Longrightarrow> last (escape_blanks d) = last d"
proof (induction d)
  case Nil
  then show ?case by simp
next
  case (Cons c d)
  then show ?case by (cases "d = []") auto
qed

lemma strip_blanks_id:
  assumes "s \<noteq> []" and "\<not> ISBLANK (last s)"
  shows "strip_blanks (t @ s) = t @ s"
proof -
  from assms obtain x xs where "rev (t @ s) = x # xs" and "\<not> ISBLANK x"
    by (metis append_is_Nil_conv hd_rev last_appendR list.exhaust_sel rev_is_Nil_conv)
  then show ?thesis
    by (metis dropWhile.simps(2) rev_rev_ident strip_blanks_def)
qed

lemma dropWhile_blank_id:
  assumes "s \<noteq> []" and "\<not> ISBLANK (hd s)"
  shows "dropWhile ISBLANK (s @ t) = s @ t" and "takeWhile ISBLANK (s @ t) = []"
  using assms by (cases s; simp)+

lemma plain_dir_facts:
  assumes "plain_dir delim d"
  shows "d \<noteq> []" "CHR 0x22 \<notin> set d" "delim \<notin> set d" "CHR 0x09 \<notin> set d"
    "no_escaped_blank d" "\<not> ISBLANK (hd d)" "\<not> ISBLANK (last d)" "last d \<noteq> CHR 0x5C"
    "\<not> ISBLANK (hd (escape_blanks d))" "\<not> ISBLANK (last (escape_blanks d))"
proof -
  from assms show ne: "d \<noteq> []" and q: "CHR 0x22 \<notin> set d" and "delim \<notin> set d"
    and t: "CHR 0x09 \<notin> set d" and "no_escaped_blank d" and "last d \<noteq> CHR 0x5C"
    by (simp_all add: plain_dir_def)
  from ne t have "hd d \<noteq> CHR 0x09" and "last d \<noteq> CHR 0x09"
    by (metis hd_in_set, metis last_in_set)
  with assms show h: "\<not> ISBLANK (hd d)" and l: "\<not> ISBLANK (last d)"
    by (simp_all add: plain_dir_def ISBLANK_def)
  from h ne show "\<not> ISBLANK (hd (escape_blanks d))"
    by (simp add: hd_escape_blanks ISBLANK_def)
  from l ne show "\<not> ISBLANK (last (escape_blanks d))"
    by (simp add: last_escape_blanks)
qed

lemma from_loop_delim:
  assumes "plain_delim delim"
  shows "from_windows32_loop delim True (delim # rest) False e tgt
         = from_windows32_loop delim True (dropWhile ISBLANK rest) False False
             (strip_blanks tgt @ [CHR '' ''])"
  using assms by (simp add: plain_delim_def)

lemma from_loop_join:
  assumes "plain_delim delim" and "ds \<noteq> []" and "\<forall>d \<in> set ds. plain_dir delim d"
  shows "from_windows32_loop delim True (join_with delim ds) False False tgt
         = tgt @ join_with (CHR '' '') (map escape_blanks ds)"
  using assms
proof (induction delim ds arbitrary: tgt rule: join_with.induct)
  case (1 sep)
  then show ?case by simp
next
  case (2 sep d)
  then have p: "plain_dir sep d" by simp
  from from_loop_dir [of d sep False "[]" tgt] plain_dir_facts [OF p]
  show ?case by simp
next
  case (3 sep d d2 ds)
  then have p: "plain_dir sep d" and p2: "plain_dir sep d2"
    and ps: "\<forall>x \<in> set (d2 # ds). plain_dir sep x" by simp_all
  note f = plain_dir_facts [OF p] and f2 = plain_dir_facts [OF p2]
  let ?R = "join_with sep (d2 # ds)"
  have R: "?R = d2 @ (case ds of [] \<Rightarrow> [] | _ \<Rightarrow> sep # join_with sep ds)"
    by (cases ds) simp_all
  have "from_windows32_loop sep True (join_with sep (d # d2 # ds)) False False tgt
      = from_windows32_loop sep True (d @ sep # ?R) False False tgt" by simp
  also have "\<dots> = from_windows32_loop sep True (sep # ?R) False (esc_after False d)
      (tgt @ escape_blanks d)"
    using f by (intro from_loop_dir) simp_all
  also have "\<dots> = from_windows32_loop sep True (dropWhile ISBLANK ?R) False False
             (strip_blanks (tgt @ escape_blanks d) @ [CHR '' ''])"
    using "3.prems"(1) by (rule from_loop_delim)
  also have "dropWhile ISBLANK ?R = ?R"
    unfolding R using f2(1,6) by (rule dropWhile_blank_id)
  also have "strip_blanks (tgt @ escape_blanks d) = tgt @ escape_blanks d"
    using f(1,10) by (intro strip_blanks_id) simp_all
  also have "from_windows32_loop sep True ?R False False ((tgt @ escape_blanks d) @ [CHR '' ''])
      = ((tgt @ escape_blanks d) @ [CHR '' '']) @ join_with (CHR '' '') (map escape_blanks (d2 # ds))"
    using "3.prems"(1) ps by (intro "3.IH") simp_all
  finally show ?case by simp
qed

lemma delim_found_dir:
  assumes "CHR 0x22 \<notin> set d" and "delim \<notin> set d"
  shows "delim_found delim False (d @ rest) = delim_found delim False rest"
  using assms by (induction d) auto

lemma join_with_Cons:
  "ds \<noteq> [] \<Longrightarrow> join_with sep (d # ds) = d @ sep # join_with sep ds"
  by (cases ds) simp_all

lemma join_with_nonempty: "ds \<noteq> [] \<Longrightarrow> hd ds \<noteq> [] \<Longrightarrow> join_with sep ds \<noteq> []"
  by (induction sep ds rule: join_with.induct) auto

lemma delim_found_join:
  assumes "plain_delim delim" and "2 \<le> length ds" and "\<forall>d \<in> set ds. plain_dir delim d"
  shows "delim_found delim False (join_with delim ds)"
proof -
  from assms(2) obtain d d2 ds2 where "ds = d # d2 # ds2"
    by (cases ds; cases "tl ds") auto
  then obtain ds' where ds: "ds = d # ds'" and ne: "ds' \<noteq> []"
    by simp
  from assms(3) ds have "plain_dir delim d" by simp
  note f = plain_dir_facts [OF this]
  have "delim_found delim False (join_with delim ds)
      = delim_found delim False (d @ delim # join_with delim ds')"
    using ds ne by (simp add: join_with_Cons)
  also have "\<dots> = delim_found delim False (delim # join_with delim ds')"
    using f(2,3) by (rule delim_found_dir)
  also have "\<dots>" using assms(1) by (simp add: plain_delim_def)
  finally show ?thesis .
qed

lemma hd_join_with:
  "ds \<noteq> [] \<Longrightarrow> hd ds \<noteq> [] \<Longrightarrow> hd (join_with sep ds) = hd (hd ds)"
  by (induction sep ds rule: join_with.induct) auto

lemma join_with_nonempty_last:
  "ds \<noteq> [] \<Longrightarrow> last ds \<noteq> [] \<Longrightarrow> join_with sep ds \<noteq> []"
  by (induction sep ds rule: join_with.induct) auto

lemma last_join_with:
  "ds \<noteq> [] \<Longrightarrow> last ds \<noteq> [] \<Longrightarrow> last (join_with sep ds) = last (last ds)"
proof (induction sep ds rule: join_with.induct)
  case (1 sep)
  then show ?case by simp
next
  case (2 sep d)
  then show ?case by simp
next
  case (3 sep d d2 ds)
  then have "join_with sep (d2 # ds) \<noteq> []"
    by (intro join_with_nonempty_last) simp_all
  with 3 show ?case by simp
qed

lemma from_windows32_join:
  assumes "plain_delim delim" and "2 \<le> length ds" and "\<forall>d \<in> set ds. plain_dir delim d"
  shows "convert_vpath_from_windows32 (join_with delim ds) delim
         = Some (join_with (CHR '' '') (map escape_blanks ds))"
proof -
  from assms(2) have ne: "ds \<noteq> []" by auto
  let ?x = "join_with delim ds"
  let ?c = "join_with (CHR '' '') (map escape_blanks ds)"
  from ne assms(3) have ph: "plain_dir delim (hd ds)" and pl: "plain_dir delim (last ds)"
    by simp_all
  note fh = plain_dir_facts [OF ph] and fl = plain_dir_facts [OF pl]
  have xne: "?x \<noteq> []" using ne fh(1) by (rule join_with_nonempty)
  have "hd ?x = hd (hd ds)" using ne fh(1) by (rule hd_join_with)
  with fh(6) have "\<not> ISBLANK (hd ?x)" by simp
  with xne have dw: "dropWhile ISBLANK ?x = ?x" by (cases ?x) auto
  have df: "delim_found delim False ?x" using assms by (rule delim_found_join)
  have loop: "from_windows32_loop delim True ?x False False [] = ?c"
    using from_loop_join [OF assms(1) ne assms(3), of "[]"] by simp
  have cne: "?c \<noteq> []" using ne fh(1) by (intro join_with_nonempty) (simp_all add: hd_map)
  have "last ?c = last (last (map escape_blanks ds))"
    using ne fl(1) by (intro last_join_with) (simp_all add: last_map)
  also have "\<dots> = last (escape_blanks (last ds))" using ne by (simp add: last_map)
  finally have "\<not> ISBLANK (last ?c)" using fl(10) by simp
  with cne have "strip_blanks ([] @ ?c) = [] @ ?c" by (rule strip_blanks_id)
  then have sb: "strip_blanks ?c = ?c" by simp
  show ?thesis
    using xne dw df loop sb by (simp add: convert_vpath_from_windows32_def Let_def)
qed

lemma to_loop_unfold:
  "to_windows32_loop delim (c # cs) instring enquote tgt mark =
     (if \<not> instring \<and> c = CHR 0x5C \<and> cs \<noteq> [] \<and> ISBLANK (hd cs) then
        to_windows32_loop delim (tl cs) instring True (tgt @ [CHR '' '']) mark
      else if \<not> instring \<and> ISBLANK c then
        to_windows32_loop delim cs instring False
          ((if enquote then enclose tgt mark else tgt) @ [delim])
          (length ((if enquote then enclose tgt mark else tgt) @ [delim]))
      else
        to_windows32_loop delim cs (if c = CHR 0x22 then \<not> instring else instring)
          enquote (tgt @ [c]) mark)"
  by (cases cs) (simp_all add: Let_def)

lemma to_loop_dir:
  assumes "CHR 0x22 \<notin> set d" and "CHR 0x09 \<notin> set d" and "d = [] \<or> last d \<noteq> CHR 0x5C"
  shows "to_windows32_loop delim (escape_blanks d @ rest) False enq tgt mark
         = to_windows32_loop delim rest False (enq \<or> CHR '' '' \<in> set d) (tgt @ d) mark"
  using assms
proof (induction d arbitrary: enq tgt)
  case Nil
  then show ?case by simp
next
  case (Cons c d)
  from Cons.prems have tl: "CHR 0x22 \<notin> set d" "CHR 0x09 \<notin> set d" "d = [] \<or> last d \<noteq> CHR 0x5C"
    by (auto split: if_splits)
  show ?case
  proof (cases "c = CHR '' ''")
    case True
    have "to_windows32_loop delim (escape_blanks (c # d) @ rest) False enq tgt mark
        = to_windows32_loop delim (escape_blanks d @ rest) False True (tgt @ [CHR '' '']) mark"
      using True by (simp add: to_loop_unfold ISBLANK_def)
    also have "\<dots> = to_windows32_loop delim rest False (True \<or> CHR '' '' \<in> set d)
        ((tgt @ [CHR '' '']) @ d) mark"
      using tl by (rule Cons.IH)
    finally show ?thesis using True by simp
  next
    case False
    from Cons.prems False have nb: "\<not> ISBLANK c" and nq: "c \<noteq> CHR 0x22"
      by (auto simp: ISBLANK_def)
    have next_ok: "\<not> (c = CHR 0x5C \<and> escape_blanks d @ rest \<noteq> []
        \<and> ISBLANK (hd (escape_blanks d @ rest)))"
    proof (cases d)
      case Nil
      with Cons.prems(3) show ?thesis by simp
    next
      case (Cons b d')
      with tl show ?thesis by (auto simp: ISBLANK_def)
    qed
    have "to_windows32_loop delim (escape_blanks (c # d) @ rest) False enq tgt mark
        = to_windows32_loop delim (escape_blanks d @ rest) False enq (tgt @ [c]) mark"
      using False nb nq next_ok by (auto simp add: to_loop_unfold)
    also have "\<dots> = to_windows32_loop delim rest False (enq \<or> CHR '' '' \<in> set d)
        ((tgt @ [c]) @ d) mark"
      using tl by (rule Cons.IH)
    finally show ?thesis using False by auto
  qed
qed

lemma enclose_segment: "enclose (out @ d) (length out) = out @ CHR 0x22 # d @ [CHR 0x22]"
  by (simp add: enclose_def)

lemma to_loop_join:
  assumes "ds \<noteq> []" and "\<forall>d \<in> set ds. plain_dir delim d"
  shows "to_windows32_loop delim (join_with (CHR '' '') (map escape_blanks ds))
           False False out (length out)
         = out @ join_with delim (map quoted ds)"
  using assms
proof (induction delim ds arbitrary: out rule: join_with.induct)
  case (1 sep)
  then show ?case by simp
next
  case (2 sep d)
  then have "plain_dir sep d" by simp
  note f = plain_dir_facts [OF this]
  from to_loop_dir [where d = d and rest = "[]" and delim = sep and enq = False
      and tgt = out and mark = "length out"] f
  show ?case by (simp add: quoted_def enclose_segment)
next
  case (3 sep d d2 ds)
  then have p: "plain_dir sep d" and ps: "\<forall>x \<in> set (d2 # ds). plain_dir sep x" by simp_all
  note f = plain_dir_facts [OF p]
  let ?R = "join_with (CHR '' '') (map escape_blanks (d2 # ds))"
  let ?t = "out @ quoted d @ [sep]"
  have "to_windows32_loop sep (join_with (CHR '' '') (map escape_blanks (d # d2 # ds)))
           False False out (length out)
      = to_windows32_loop sep (escape_blanks d @ CHR '' '' # ?R) False False out (length out)"
    by simp
  also have "\<dots> = to_windows32_loop sep (CHR '' '' # ?R) False (False \<or> CHR '' '' \<in> set d)
      (out @ d) (length out)"
    using f(2,4,8) by (intro to_loop_dir) simp_all
  also have "\<dots> = to_windows32_loop sep ?R False False ?t (length ?t)"
    by (simp add: to_loop_unfold ISBLANK_def quoted_def enclose_segment)
  also have "\<dots> = ?t @ join_with sep (map quoted (d2 # ds))"
    using ps by (intro "3.IH") simp_all
  finally show ?case by simp
qed

lemma to_windows32_join:
  assumes "ds \<noteq> []" and "\<forall>d \<in> set ds. plain_dir delim d"
  shows "convert_Path_to_windows32 (join_with (CHR '' '') (map escape_blanks ds)) delim
         = Some (join_with delim (map quoted ds))"
proof -
  let ?c = "join_with (CHR '' '') (map escape_blanks ds)"
  from assms have ph: "plain_dir delim (hd ds)" by simp
  note fh = plain_dir_facts [OF ph]
  have cne: "?c \<noteq> []"
    using assms(1) fh(1) by (intro join_with_nonempty) (simp_all add: hd_map)
  have "hd ?c = hd (hd (map escape_blanks ds))"
    using assms(1) fh(1) by (intro hd_join_with) (simp_all add: hd_map)
  also have "\<dots> = hd (escape_blanks (hd ds))" using assms(1) by (simp add: hd_map)
  finally have "\<not> ISBLANK (hd ?c)" using fh(9) by simp
  with cne have dw: "dropWhile ISBLANK ?c = ?c" by (cases ?c) auto
  from to_loop_join [OF assms, of "[]"] cne dw show ?thesis
    by (simp add: convert_Path_to_windows32_def Let_def)
qed

lemma from_loop_instring:
  assumes "CHR 0x22 \<notin> set d" and "CHR 0x09 \<notin> set d"
  shows "from_windows32_loop delim dfound (d @ rest) True False tgt
         = from_windows32_loop delim dfound rest True False (tgt @ escape_blanks d)"
  using assms
proof (induction d arbitrary: tgt)
  case Nil
  then show ?case by simp
next
  case (Cons c d)
  then have IH: "from_windows32_loop delim dfound (d @ rest) True False t
         = from_windows32_loop delim dfound rest True False (t @ escape_blanks d)" for t
    by simp
  from Cons.prems have "c \<noteq> CHR 0x22" and "c \<noteq> CHR 0x09" by auto
  then show ?case
    by (cases "c = CHR '' ''") (simp_all add: IH ISBLANK_def)
qed

lemma from_loop_quoted:
  assumes "plain_dir delim d"
  shows "\<exists>e. from_windows32_loop delim True (quoted d @ rest) False False tgt
             = from_windows32_loop delim True rest False e (tgt @ escape_blanks d)"
proof (cases "CHR '' '' \<in> set d")
  case False
  note f = plain_dir_facts [OF assms]
  have "from_windows32_loop delim True (d @ rest) False False tgt
      = from_windows32_loop delim True rest False (esc_after False d) (tgt @ escape_blanks d)"
    using f(2,3,4,5) by (intro from_loop_dir) simp_all
  with False show ?thesis by (auto simp: quoted_def)
next
  case True
  note f = plain_dir_facts [OF assms]
  have "from_windows32_loop delim True (quoted d @ rest) False False tgt
      = from_windows32_loop delim True (d @ CHR 0x22 # rest) True False tgt"
    using True by (simp add: quoted_def)
  also have "\<dots> = from_windows32_loop delim True (CHR 0x22 # rest) True False
      (tgt @ escape_blanks d)"
    using f(2,4) by (rule from_loop_instring)
  also have "\<dots> = from_windows32_loop delim True rest False False (tgt @ escape_blanks d)"
    by simp
  finally show ?thesis by blast
qed

lemma quoted_facts:
  assumes "plain_dir delim d"
  shows "quoted d \<noteq> []" and "\<not> ISBLANK (hd (quoted d))"
  using plain_dir_facts(1,6) [OF assms] by (auto simp: quoted_def ISBLANK_def)

lemma from_loop_join_quoted:
  assumes "plain_delim delim" and "ds \<noteq> []" and "\<forall>d \<in> set ds. plain_dir delim d"
  shows "from_windows32_loop delim True (join_with delim (map quoted ds)) False False tgt
         = tgt @ join_with (CHR '' '') (map escape_blanks ds)"
  using assms
proof (induction delim ds arbitrary: tgt rule: join_with.induct)
  case (1 sep)
  then show ?case by simp
next
  case (2 sep d)
  then have p: "plain_dir sep d" by simp
  from from_loop_quoted [OF p, of "[]" tgt] show ?case by auto
next
  case (3 sep d d2 ds)
  then have p: "plain_dir sep d" and p2: "plain_dir sep d2"
    and ps: "\<forall>x \<in> set (d2 # ds). plain_dir sep x" by simp_all
  note f = plain_dir_facts [OF p] and q2 = quoted_facts [OF p2]
  let ?R = "join_with sep (map quoted (d2 # ds))"
  have R: "?R = quoted d2 @ (case ds of [] \<Rightarrow> [] | _ \<Rightarrow> sep # join_with sep (map quoted ds))"
    by (cases ds) simp_all
  from from_loop_quoted [OF p, of "sep # ?R" tgt] obtain e where
    "from_windows32_loop sep True (quoted d @ sep # ?R) False False tgt
      = from_windows32_loop sep True (sep # ?R) False e (tgt @ escape_blanks d)" by blast
  then have "from_windows32_loop sep True (join_with sep (map quoted (d # d2 # ds))) False False tgt
      = from_windows32_loop sep True (sep # ?R) False e (tgt @ escape_blanks d)" by simp
  also have "\<dots> = from_windows32_loop sep True (dropWhile ISBLANK ?R) False False
             (strip_blanks (tgt @ escape_blanks d) @ [CHR '' ''])"
    using "3.prems"(1) by (rule from_loop_delim)
  also have "dropWhile ISBLANK ?R = ?R"
    unfolding R using q2 by (rule dropWhile_blank_id)
  also have "strip_blanks (tgt @ escape_blanks d) = tgt @ escape_blanks d"
    using f(1,10) by (intro strip_blanks_id) simp_all
  also have "from_windows32_loop sep True ?R False False ((tgt @ escape_blanks d) @ [CHR '' ''])
      = ((tgt @ escape_blanks d) @ [CHR '' '']) @ join_with (CHR '' '') (map escape_blanks (d2 # ds))"
    using "3.prems"(1) ps by (intro "3.IH") simp_all
  finally show ?case by simp
qed

lemma delim_found_instring:
  assumes "CHR 0x22 \<notin> set d"
  shows "delim_found delim True (d @ rest) = delim_found delim True rest"
  using assms by (induction d) auto

lemma delim_found_quoted:
  assumes "plain_dir delim d"
  shows "delim_found delim False (quoted d @ rest) = delim_found delim False rest"
  using plain_dir_facts(2,3) [OF assms]
  by (auto simp: quoted_def delim_found_instring delim_found_dir)

lemma from_windows32_join_quoted:
  assumes "plain_delim delim" and "2 \<le> length ds" and "\<forall>d \<in> set ds. plain_dir delim d"
  shows "convert_vpath_from_windows32 (join_with delim (map quoted ds)) delim
         = Some (join_with (CHR '' '') (map escape_blanks ds))"
proof -
  from assms(2) obtain d d2 ds2 where ds: "ds = d # d2 # ds2"
    by (cases ds; cases "tl ds") auto
  then have ne: "ds \<noteq> []" by simp
  let ?x = "join_with delim (map quoted ds)"
  let ?c = "join_with (CHR '' '') (map escape_blanks ds)"
  from ne assms(3) have ph: "plain_dir delim (hd ds)" and pl: "plain_dir delim (last ds)"
    by simp_all
  note fh = plain_dir_facts [OF ph] and fl = plain_dir_facts [OF pl]
    and qh = quoted_facts [OF ph]
  have xne: "?x \<noteq> []"
    using ne qh(1) by (intro join_with_nonempty) (simp_all add: hd_map)
  have "hd ?x = hd (hd (map quoted ds))"
    using ne qh(1) by (intro hd_join_with) (simp_all add: hd_map)
  also have "\<dots> = hd (quoted (hd ds))" using ne by (simp add: hd_map)
  finally have "\<not> ISBLANK (hd ?x)" using qh(2) by simp
  with xne have dw: "dropWhile ISBLANK ?x = ?x" by (cases ?x) auto
  from assms(3) ds have pd: "plain_dir delim d" by simp
  have "delim_found delim False ?x
      = delim_found delim False (quoted d @ delim # join_with delim (map quoted (d2 # ds2)))"
    using ds by simp
  also have "\<dots> = delim_found delim False (delim # join_with delim (map quoted (d2 # ds2)))"
    using pd by (rule delim_found_quoted)
  also have "\<dots>" using assms(1) by (simp add: plain_delim_def)
  finally have df: "delim_found delim False ?x" .
  have loop: "from_windows32_loop delim True ?x False False [] = ?c"
    using from_loop_join_quoted [OF assms(1) ne assms(3), of "[]"] by simp
  have cne: "?c \<noteq> []" using ne fh(1) by (intro join_with_nonempty) (simp_all add: hd_map)
  have "last ?c = last (last (map escape_blanks ds))"
    using ne fl(1) by (intro last_join_with) (simp_all add: last_map)
  also have "\<dots> = last (escape_blanks (last ds))" using ne by (simp add: last_map)
  finally have "\<not> ISBLANK (last ?c)" using fl(10) by simp
  with cne have "strip_blanks ([] @ ?c) = [] @ ?c" by (rule strip_blanks_id)
  then have sb: "strip_blanks ?c = ?c" by simp
  show ?thesis
    using xne dw df loop sb by (simp add: convert_vpath_from_windows32_def Let_def)
qed

text \<open>
  Claim C9 (amended).  For a host-native list of at least two plain directories written
  with a plain delimiter between them (spaces inside the directories, none next to a
  delimiter), \<open>convert_vpath_from_windows32\<close> gives the same directories in the same
  order, separated by single spaces and with every embedded space escaped, and
  \<open>convert_Path_to_windows32\<close> gives back the same directories in the same order with
  the delimiter between them, each directory that has a space in double quotes; that
  result converts to the same canonical list again.
\<close>

theorem windows32_round_trip:
  assumes "plain_delim delim" and "2 \<le> length ds" and "\<forall>d \<in> set ds. plain_dir delim d"
  shows "convert_vpath_from_windows32 (join_with delim ds) delim
           = Some (join_with (CHR '' '') (map escape_blanks ds))
         \<and> convert_Path_to_windows32 (join_with (CHR '' '') (map escape_blanks ds)) delim
           = Some (join_with delim (map quoted ds))
         \<and> convert_vpath_from_windows32 (join_with delim (map quoted ds)) delim
           = Some (join_with (CHR '' '') (map escape_blanks ds))"
proof -
  from assms(2) have ne: "ds \<noteq> []" by auto
  from from_windows32_join [OF assms] to_windows32_join [OF ne assms(3)]
    from_windows32_join_quoted [OF assms]
  show ?thesis by blast
qed

theorem windows32_round_trip_witness:
  "convert_vpath_from_windows32 ''my dir;src;C:/Program Files/x'' CHR '';''
     = Some (''my'' @ [CHR 0x5C] @ '' dir src C:/Program'' @ [CHR 0x5C] @ '' Files/x'')
   \<and> convert_Path_to_windows32
       (''my'' @ [CHR 0x5C] @ '' dir src C:/Program'' @ [CHR 0x5C] @ '' Files/x'') CHR '';''
     = Some ([CHR 0x22] @ ''my dir'' @ [CHR 0x22] @ '';src;'' @ [CHR 0x22]
             @ ''C:/Program Files/x'' @ [CHR 0x22])"
proof -
  have a: "plain_delim CHR '';''" by (simp add: plain_delim_def ISBLANK_def)
  have b: "2 \<le> length [''my dir'', ''src'', ''C:/Program Files/x'']" by simp
  have c: "\<forall>d \<in> set [''my dir'', ''src'', ''C:/Program Files/x'']. plain_dir CHR '';'' d"
    by (simp add: plain_dir_def)
  from windows32_round_trip [OF a b c] show ?thesis
    by (simp add: quoted_def)
qed

text \<open>
  Claim C9 as stated fails: the host-native list of the single directory \<open>my dir\<close> has
  no delimiter outside quotes, so its space is not escaped (the text is taken to be in
  canonical form already), and the way back makes the two directories \<open>my\<close> and \<open>dir\<close>
  of it.
\<close>

theorem windows32_round_trip_counterexample:
  "convert_vpath_from_windows32 ''my dir'' CHR '';'' = Some ''my dir''
   \<and> convert_Path_to_windows32 ''my dir'' CHR '';'' = Some ''my;dir''"
  by code_simp


text \<open>
  The conditions on the last byte of a directory are needed: a space before the delimiter
  is first escaped and then removed without its backslash, and a backslash before the
  delimiter escapes the space that replaces the delimiter.  In both cases two directories
  become one entry of the canonical list.
\<close>

lemma from_windows32_merges_entries:
  "convert_vpath_from_windows32 ''a ;b'' CHR '';'' = Some (''a'' @ [CHR 0x5C] @ '' b'')
   \<and> convert_vpath_from_windows32 (''C:/dir'' @ [CHR 0x5C] @ '';D:/x'') CHR '';''
       = Some (''C:/dir'' @ [CHR 0x5C] @ '' D:/x'')"
  by code_simp

subsection \<open>The exclusion list\<close>

lemma strneq_take: "strneq a b n = (take n a = take n b)"
  by (induction a b n rule: strneq.induct) auto

lemma gpath_loop_exact:
  "len \<le> length file \<Longrightarrow>
   gpath_loop gps file len = Inr (take len file \<in> set gps)"
proof (induction gps)
  case Nil
  then show ?case by simp
next
  case (Cons gp gps)
  show ?case
  proof (cases "strneq gp file len")
    case False
    then have "take len file \<noteq> gp"
      by (auto simp: strneq_take)
    with False Cons show ?thesis by auto
  next
    case True
    then have eq: "take len gp = take len file"
      by (simp add: strneq_take)
    from Cons.prems have "length (take len file) = len" by simp
    with eq have ge: "len \<le> length gp"
      by (metis length_take min.cobounded1 min.commute)
    show ?thesis
    proof (cases "length gp = len")
      case True
      with eq have "gp = take len file" by simp
      with True \<open>strneq gp file len\<close> show ?thesis
        by simp
    next
      case False
      with ge have lt: "len < length gp" by simp
      have ne: "take len file \<noteq> gp"
        using lt Cons.prems by (metis length_take min.absorb2 nat_neq_iff)
      show ?thesis
        using \<open>strneq gp file len\<close> lt ne Cons by auto
    qed
  qed
qed

text \<open>
  Claim C8.  \<open>gpath_search (name, length)\<close> is exact membership: for a \<open>length\<close> that
  is at most the length of \<open>name\<close>, and an exclusion list whose \<open>maxlen\<close> bounds its
  entries (\<open>maxlen_bounds\<close>, which the builder establishes, see
  \<open>build_vpath_lists_gpaths\<close>), the call returns true if and only if some entry of the
  exclusion list is exactly the first \<open>length\<close> bytes of \<open>name\<close>; such an entry is
  \<open>length\<close> bytes long, so an entry that only shares a prefix, shorter or longer, never
  matches; and the result is false when no exclusion list was built.
\<close>

theorem gpath_search_exact:
  assumes "len \<le> length file"
    and "\<forall>gp. gpaths g = Some gp \<longrightarrow> maxlen_bounds gp"
  shows "gpath_search g file len =
           Inr (\<exists>gp e. gpaths g = Some gp \<and> e \<in> set (searchpath gp) \<and>
                  length e = len \<and> e = take len file)
         \<and> (gpaths g = None \<longrightarrow> gpath_search g file len = Inr False)"
proof (cases "gpaths g")
  case None
  then show ?thesis by (simp add: gpath_search_def)
next
  case (Some gp)
  show ?thesis
  proof (cases "len \<le> maxlen gp")
    case True
    with Some assms(1) show ?thesis
      by (auto simp: gpath_search_def gpath_loop_exact)
  next
    case False
    have "take len file \<notin> set (searchpath gp)"
    proof
      assume "take len file \<in> set (searchpath gp)"
      with assms(2) Some have "length (take len file) \<le> maxlen gp"
        by (auto simp: maxlen_bounds_def)
      with assms(1) False show False by simp
    qed
    with Some False show ?thesis
      by (auto simp: gpath_search_def)
  qed
qed

theorem gpath_search_exact_witness:
  "(10::nat) \<le> length ''/src/foo.c''
   \<and> gpath_search
        \<lparr>vpaths = [], general_vpath = None,
         gpaths = Some \<lparr>pattern = ''%'', percent = Some 0, patlen = 1,
                         searchpath = [''/src/foo.'', ''/src/foo.cc'', ''/src/foo.c''],
                         maxlen = 11, target_goal = 0\<rparr>\<rparr>
        ''/src/foo.c'' 10 = Inr True
   \<and> gpath_search
        \<lparr>vpaths = [], general_vpath = None,
         gpaths = Some \<lparr>pattern = ''%'', percent = Some 0, patlen = 1,
                         searchpath = [''/src/foo.'', ''/src/foo.cc''],
                         maxlen = 11, target_goal = 0\<rparr>\<rparr>
        ''/src/foo.c'' 10 = Inr False"
  using gpath_search_exact [of 10 "''/src/foo.c''"
        "\<lparr>vpaths = [], general_vpath = None,
         gpaths = Some \<lparr>pattern = ''%'', percent = Some 0, patlen = 1,
                         searchpath = [''/src/foo.'', ''/src/foo.cc'', ''/src/foo.c''],
                         maxlen = 11, target_goal = 0\<rparr>\<rparr>"]
    gpath_search_exact [of 10 "''/src/foo.c''"
        "\<lparr>vpaths = [], general_vpath = None,
         gpaths = Some \<lparr>pattern = ''%'', percent = Some 0, patlen = 1,
                         searchpath = [''/src/foo.'', ''/src/foo.cc''],
                         maxlen = 11, target_goal = 0\<rparr>\<rparr>"]
  by (simp add: maxlen_bounds_def)

end
